theory Spec2Isabelle
  imports Main "HOL-Library.Monad_Syntax"
begin

section \<open>Errors raised by the Python code\<close>

text \<open>
  The exceptions the scheduling engine of \<^verbatim>\<open>main.py\<close> can raise: an index out of
  range of a list, an attribute read on \<^verbatim>\<open>None\<close>, a missing element in
  \<^verbatim>\<open>list.remove\<close> or \<^verbatim>\<open>min\<close> of an empty sequence, a missing element in
  \<^verbatim>\<open>set.remove\<close>, and a recursion deeper than the interpreter allows. Activity indices are natural numbers (the data model has them in
  \<open>[0, n)\<close>), so Python's negative indices are excluded by the type.
\<close>

datatype error = IndexError | AttributeError | ValueError | KeyError | RecursionError

section \<open>Resource time-profile: \<^verbatim>\<open>TimeCapacityNode\<close>\<close>

text \<open>
  Python objects are modelled by an explicit store. A capacity or demand vector is a list
  object, addressed by its index in \<open>vecs\<close>; a \<^verbatim>\<open>TimeCapacityNode\<close> is addressed by
  its index in \<open>nodes\<close> and holds the address of its capacity vector. The attributes
  \<^verbatim>\<open>next\<close> and \<^verbatim>\<open>prev\<close> are the fields \<open>nxt\<close> and \<open>prv\<close>. The local
  lists \<^verbatim>\<open>starts\<close> and \<^verbatim>\<open>finish_nodes\<close> of \<^verbatim>\<open>decode\<close> are part of the state.
\<close>

record node =
  time :: int
  capacity :: nat
  nxt :: "nat option"
  prv :: "nat option"

record dstate =
  vecs :: "int list list"
  nodes :: "node list"
  starts :: "int list"
  finish_nodes :: "nat option list"

text \<open>\<^verbatim>\<open>list.copy()\<close>: a new list object with the same elements.\<close>

definition copy :: "int list list \<Rightarrow> nat \<Rightarrow> nat \<times> int list list" where
  "copy vs r = (length vs, vs @ [vs ! r])"

text \<open>
  \<^verbatim>\<open>insert_after\<close>: the new node takes a copy of the capacity vector of \<open>self\<close> and is
  linked in directly after \<open>self\<close>.
\<close>

definition insert_after :: "nat \<Rightarrow> int \<Rightarrow> dstate \<Rightarrow> nat \<times> dstate" where
  "insert_after self tm s =
     (let (r, vs') = copy (vecs s) (capacity (nodes s ! self));
          new = length (nodes s);
          ns0 = nodes s @ [\<lparr>time = tm, capacity = r, nxt = None, prv = None\<rparr>];
          ns1 = ns0[new := (ns0 ! new)\<lparr>prv := Some self\<rparr>];
          ns2 = ns1[new := (ns1 ! new)\<lparr>nxt := nxt (ns1 ! self)\<rparr>];
          ns3 = (case nxt (ns2 ! self) of
                   None \<Rightarrow> ns2
                 | Some b \<Rightarrow> ns2[b := (ns2 ! b)\<lparr>prv := Some new\<rparr>]);
          ns4 = ns3[self := (ns3 ! self)\<lparr>nxt := Some new\<rparr>]
      in (new, s\<lparr>vecs := vs', nodes := ns4\<rparr>))"

text \<open>
  \<^verbatim>\<open>enough\<close>: \<^verbatim>\<open>all(self.capacity[i] >= demand[i] for i in range(len(demand)))\<close>.
  The generator stops at the first index that fails; reading past the end of the capacity
  vector raises.
\<close>

fun enough :: "int list \<Rightarrow> int list \<Rightarrow> error + bool" where
  "enough cap [] = Inr True"
| "enough [] (d # ds) = Inl IndexError"
| "enough (c # cs) (d # ds) = (if c \<ge> d then enough cs ds else Inr False)"

text \<open>
  \<^verbatim>\<open>consume\<close>: subtracts the demand index by index, in place. When the capacity vector
  is too short the indices before the failing one have already been updated.
\<close>

fun consume :: "int list \<Rightarrow> int list \<Rightarrow> error option \<times> int list" where
  "consume cap [] = (None, cap)"
| "consume [] (d # ds) = (Some IndexError, [])"
| "consume (c # cs) (d # ds) = (case consume cs ds of (e, cs') \<Rightarrow> (e, (c - d) # cs'))"

section \<open>Serial schedule decoder: \<^verbatim>\<open>ActivityListDecoder.decode\<close>\<close>

text \<open>
  The loop over the predecessors of an activity: \<open>start\<close> moves to the recorded finish
  node of a predecessor when that node's time is later.
\<close>

fun pred_loop :: "dstate \<Rightarrow> nat list \<Rightarrow> nat \<Rightarrow> error + nat" where
  "pred_loop s [] start = Inr start"
| "pred_loop s (p # ps) start =
     (if p \<ge> length (finish_nodes s) then Inl IndexError
      else case finish_nodes s ! p of
             None \<Rightarrow> Inl AttributeError
           | Some f \<Rightarrow> pred_loop s ps
                (if time (nodes s ! f) > time (nodes s ! start) then f else start))"

text \<open>
  The capacity search \<^verbatim>\<open>while not node.enough(demands[i])\<close>. The loop state is
  \<open>(node, start, finish_time)\<close>; \<open>dem\<close> is the address of \<^verbatim>\<open>demands[i]\<close> and \<open>d\<close> is
  \<^verbatim>\<open>duration[i]\<close>. Running off the end of the list makes \<open>node\<close> \<^verbatim>\<open>None\<close>, and the
  read of \<^verbatim>\<open>start.time\<close> raises. A result \<open>None\<close> of the model means the loop does not
  return.
\<close>

partial_function (option) search_loop ::
  "dstate \<Rightarrow> nat \<Rightarrow> int \<Rightarrow> nat \<Rightarrow> nat \<Rightarrow> int \<Rightarrow> (error + nat \<times> nat \<times> int) option" where
  [code]: "search_loop s dem d node start finish_time =
     (case enough (vecs s ! capacity (nodes s ! node)) (vecs s ! dem) of
        Inl e \<Rightarrow> Some (Inl e)
      | Inr b \<Rightarrow>
          if b then Some (Inr (node, start, finish_time))
          else (case nxt (nodes s ! node) of
                  None \<Rightarrow> Some (Inl AttributeError)
                | Some n \<Rightarrow> search_loop s dem d n n (time (nodes s ! n) + d)))"

text \<open>
  The consumption loop \<^verbatim>\<open>while t != finish_node\<close>; \<open>t\<close> may become \<^verbatim>\<open>None\<close>, which
  differs from the finish node, so that \<^verbatim>\<open>t.consume\<close> raises.
\<close>

partial_function (option) consume_loop ::
  "nat \<Rightarrow> nat \<Rightarrow> nat option \<Rightarrow> dstate \<Rightarrow> (error option \<times> dstate) option" where
  [code]: "consume_loop dem finish_node t s =
     (case t of
        None \<Rightarrow> Some (Some AttributeError, s)
      | Some a \<Rightarrow>
          if a = finish_node then Some (None, s)
          else (case consume (vecs s ! capacity (nodes s ! a)) (vecs s ! dem) of
                  (e, v) \<Rightarrow>
                    (let s' = s\<lparr>vecs := (vecs s)[capacity (nodes s ! a) := v]\<rparr>
                     in case e of
                          Some x \<Rightarrow> Some (Some x, s')
                        | None \<Rightarrow> consume_loop dem finish_node (nxt (nodes s' ! a)) s')))"

text \<open>The body of \<^verbatim>\<open>for i in alist\<close>.\<close>

definition decode_body ::
  "int list \<Rightarrow> nat list list \<Rightarrow> nat list \<Rightarrow> nat \<Rightarrow> dstate \<Rightarrow> (error option \<times> dstate) option" where
  "decode_body duration predecessors demands i s =
     (if i \<ge> length predecessors then Some (Some IndexError, s)
      else case pred_loop s (predecessors ! i) 0 of
        Inl e \<Rightarrow> Some (Some e, s)
      | Inr start0 \<Rightarrow>
          if i \<ge> length duration then Some (Some IndexError, s)
          else if i \<ge> length demands then Some (Some IndexError, s)
          else
            (case search_loop s (demands ! i) (duration ! i)
                    start0 start0 (time (nodes s ! start0) + duration ! i) of
               None \<Rightarrow> None
             | Some (Inl e) \<Rightarrow> Some (Some e, s)
             | Some (Inr (node, start, finish_time)) \<Rightarrow>
                 (let (finish_node, s1) =
                        (case nxt (nodes s ! node) of
                           None \<Rightarrow> insert_after node finish_time s
                         | Some n \<Rightarrow>
                             if time (nodes s ! n) \<noteq> finish_time
                             then insert_after node finish_time s
                             else (n, s))
                  in case consume_loop (demands ! i) finish_node (Some start) s1 of
                       None \<Rightarrow> None
                     | Some (Some e, s2) \<Rightarrow> Some (Some e, s2)
                     | Some (None, s2) \<Rightarrow>
                         Some (None, s2\<lparr>starts := (starts s2)[i := time (nodes s2 ! start)],
                                        finish_nodes := (finish_nodes s2)[i := Some finish_node]\<rparr>))))"

fun decode_loop ::
  "int list \<Rightarrow> nat list list \<Rightarrow> nat list \<Rightarrow> nat list \<Rightarrow> dstate \<Rightarrow> (error option \<times> dstate) option" where
  "decode_loop duration predecessors demands [] s = Some (None, s)"
| "decode_loop duration predecessors demands (i # alist) s =
     (case decode_body duration predecessors demands i s of
        None \<Rightarrow> None
      | Some (Some e, s') \<Rightarrow> Some (Some e, s')
      | Some (None, s') \<Rightarrow> decode_loop duration predecessors demands alist s')"

text \<open>
  The state before the loop: the root node at time 0 with a copy of \<open>capacity\<close>,
  \<^verbatim>\<open>starts = [0] * len(duration)\<close>, \<^verbatim>\<open>finish_nodes = [None] * len(duration)\<close>.
\<close>

definition decode_init :: "int list list \<Rightarrow> int list \<Rightarrow> nat \<Rightarrow> dstate" where
  "decode_init vs duration cap =
     (case copy vs cap of (r, vs') \<Rightarrow>
        \<lparr>vecs = vs', nodes = [\<lparr>time = 0, capacity = r, nxt = None, prv = None\<rparr>],
         starts = replicate (length duration) 0,
         finish_nodes = replicate (length duration) None\<rparr>)"

text \<open>
  \<open>decode_run\<close> is \<^verbatim>\<open>decode\<close> up to its \<^verbatim>\<open>return\<close>, with the whole final state;
  \<open>decode\<close> gives what the caller sees: the returned \<^verbatim>\<open>starts\<close> or the exception, and
  the store of vectors after the call. \<open>vs\<close> is the store before the call, \<open>demands\<close>
  the addresses of the demand vectors and \<open>cap\<close> the address of the capacity vector.
\<close>

definition decode_run ::
  "int list list \<Rightarrow> nat list \<Rightarrow> int list \<Rightarrow> nat list list \<Rightarrow> nat list \<Rightarrow> nat
     \<Rightarrow> (error option \<times> dstate) option" where
  "decode_run vs alist duration predecessors demands cap =
     (let s0 = decode_init vs duration cap
      in if length duration = 0 then Some (Some IndexError, s0)
         else decode_loop duration predecessors demands alist
                (s0\<lparr>finish_nodes := (finish_nodes s0)[0 := Some 0]\<rparr>))"

definition decode ::
  "int list list \<Rightarrow> nat list \<Rightarrow> int list \<Rightarrow> nat list list \<Rightarrow> nat list \<Rightarrow> nat
     \<Rightarrow> ((error + int list) \<times> int list list) option" where
  "decode vs alist duration predecessors demands cap =
     (case decode_run vs alist duration predecessors demands cap of
        None \<Rightarrow> None
      | Some (Some e, s) \<Rightarrow> Some (Inl e, vecs s)
      | Some (None, s) \<Rightarrow> Some (Inr (starts s), vecs s))"

section \<open>Precedence index: \<^verbatim>\<open>successors_by_predecessors\<close>\<close>

text \<open>
  \<^verbatim>\<open>[[j for j in range(n) if i in predecessors[j]] for i in range(n)]\<close>.
\<close>

definition successors_by_predecessors :: "nat list list \<Rightarrow> nat list list" where
  "successors_by_predecessors predecessors =
     (let n = length predecessors
      in map (\<lambda>i. filter (\<lambda>j. i \<in> set (predecessors ! j)) [0..<n]) [0..<n])"

section \<open>Activity-order sampler: \<^verbatim>\<open>ActivityListSampler\<close>\<close>

text \<open>
  The object built by \<^verbatim>\<open>__init__\<close>, with the attributes \<^verbatim>\<open>pred\<close>, \<^verbatim>\<open>succ\<close>
  and \<^verbatim>\<open>n\<close>.
\<close>

record sampler =
  self_pred :: "nat list list"
  self_succ :: "nat list list"
  self_n :: nat

definition ActivityListSampler :: "nat list list \<Rightarrow> sampler" where
  "ActivityListSampler predecessors =
     \<lparr>self_pred = predecessors, self_succ = successors_by_predecessors predecessors,
      self_n = length predecessors\<rparr>"

text \<open>
  The loop \<^verbatim>\<open>for s in self.succ[i]\<close> of \<^verbatim>\<open>_gen\<close>: \<^verbatim>\<open>rem[s].remove(i)\<close> raises
  \<^verbatim>\<open>KeyError\<close> when \<open>i\<close> is not in the set, and \<open>s\<close> is appended to \<open>ready\<close> when
  its set has become empty.
\<close>

fun succ_loop :: "nat \<Rightarrow> nat list \<Rightarrow> nat set list \<Rightarrow> nat list \<Rightarrow> error + nat set list \<times> nat list" where
  "succ_loop i [] rem ready = Inr (rem, ready)"
| "succ_loop i (s # ss) rem ready =
     (if s \<ge> length rem then Inl IndexError
      else if i \<notin> rem ! s then Inl KeyError
      else (let rem' = rem[s := rem ! s - {i}]
            in succ_loop i ss rem' (if rem' ! s = {} then ready @ [s] else ready)))"

text \<open>
  The loop \<^verbatim>\<open>while ready\<close> of \<^verbatim>\<open>_gen\<close>. The selection \<open>pick\<close> is a parameter; it
  may use and change a state \<open>r\<close> (the state of the pseudo-random source) and may raise.
  \<^verbatim>\<open>ready.remove(i)\<close> removes the first occurrence of \<open>i\<close> and raises \<^verbatim>\<open>ValueError\<close>
  when there is none. A result \<open>None\<close> of the model means that the loop does not return.
\<close>

partial_function (option) gen_loop ::
  "('r \<Rightarrow> nat list \<Rightarrow> (error + nat) \<times> 'r) \<Rightarrow> nat list list \<Rightarrow> 'r \<Rightarrow> nat list \<Rightarrow> nat set list \<Rightarrow> nat list
     \<Rightarrow> ((error + nat list) \<times> 'r) option" where
  [code]: "gen_loop pick sc r res rem ready =
     (if ready = [] then Some (Inr res, r)
      else case pick r ready of
        (Inl e, r') \<Rightarrow> Some (Inl e, r')
      | (Inr i, r') \<Rightarrow>
          if i \<notin> set ready then Some (Inl ValueError, r')
          else if i \<ge> length sc then Some (Inl IndexError, r')
          else (case succ_loop i (sc ! i) rem (remove1 i ready) of
                  Inl e \<Rightarrow> Some (Inl e, r')
                | Inr (rem', ready') \<Rightarrow> gen_loop pick sc r' (res @ [i]) rem' ready'))"

text \<open>
  \<^verbatim>\<open>_gen\<close>: \<^verbatim>\<open>rem = [set(p) for p in self.pred]\<close> and
  \<^verbatim>\<open>ready = [i for i in range(self.n) if not rem[i]]\<close>, where \<^verbatim>\<open>rem[i]\<close> raises when
  \<open>self.n\<close> exceeds the length of \<open>self.pred\<close>.
\<close>

definition gen ::
  "sampler \<Rightarrow> ('r \<Rightarrow> nat list \<Rightarrow> (error + nat) \<times> 'r) \<Rightarrow> 'r \<Rightarrow> ((error + nat list) \<times> 'r) option" where
  "gen self pick r =
     (let rem = map set (self_pred self)
      in if self_n self > length rem then Some (Inl IndexError, r)
         else gen_loop pick (self_succ self) r [] rem (filter (\<lambda>i. rem ! i = {}) [0..<self_n self]))"

text \<open>
  \<^verbatim>\<open>min(x, key=rule)\<close>: the first element of \<open>x\<close> whose key is minimal (a later
  element replaces the current one only when its key is strictly smaller);
  \<^verbatim>\<open>ValueError\<close> on an empty sequence.
\<close>

fun min_key :: "(nat \<Rightarrow> 'k :: linorder) \<Rightarrow> nat list \<Rightarrow> error + nat" where
  "min_key rule [] = Inl ValueError"
| "min_key rule (x # xs) = Inr (fold (\<lambda>y best. if rule y < rule best then y else best) xs x)"

text \<open>\<^verbatim>\<open>min_rule\<close>: \<^verbatim>\<open>self._gen(lambda x: min(x, key=rule))\<close>; it uses no state.\<close>

definition min_rule :: "sampler \<Rightarrow> (nat \<Rightarrow> 'k :: linorder) \<Rightarrow> (error + nat list) option" where
  "min_rule self rule = map_option fst (gen self (\<lambda>r x. (min_key rule x, r)) ())"

text \<open>
  \<^verbatim>\<open>random\<close>: \<^verbatim>\<open>self._gen(lambda x: choice(x))\<close>. The library function \<^verbatim>\<open>choice\<close>
  is a parameter, acting on the state \<open>r\<close> of the pseudo-random source.
\<close>

definition random ::
  "sampler \<Rightarrow> ('r \<Rightarrow> nat list \<Rightarrow> (error + nat) \<times> 'r) \<Rightarrow> 'r \<Rightarrow> ((error + nat list) \<times> 'r) option" where
  "random self choice r = gen self (\<lambda>r x. choice r x) r"

section \<open>Critical path calculator: \<^verbatim>\<open>calculate_critical_times\<close>\<close>

text \<open>
  \<^verbatim>\<open>calc_es\<close> is a recursive closure over \<^verbatim>\<open>duration\<close>, \<^verbatim>\<open>predecessors\<close> and the
  list \<^verbatim>\<open>est\<close>, which it updates; the model passes \<open>est\<close> through. The argument \<open>d\<close>
  is the number of nested calls of \<^verbatim>\<open>calc_es\<close> that the interpreter still allows: a
  deeper recursion raises \<^verbatim>\<open>RecursionError\<close>. \<open>es_gen\<close> is the generator
  \<^verbatim>\<open>calc_es(p) + duration[p] for p in predecessors[i]\<close> as \<^verbatim>\<open>max\<close> consumes it:
  \<open>m\<close> is the maximum so far (\<open>None\<close> before the first element; \<^verbatim>\<open>max\<close> of no
  element raises \<^verbatim>\<open>ValueError\<close>).
\<close>

fun calc_es :: "int list \<Rightarrow> nat list list \<Rightarrow> nat \<Rightarrow> nat \<Rightarrow> int list \<Rightarrow> error + int \<times> int list"
  and es_gen :: "int list \<Rightarrow> nat list list \<Rightarrow> nat \<Rightarrow> nat list \<Rightarrow> int option \<Rightarrow> int list
                   \<Rightarrow> error + int option \<times> int list" where
  "calc_es duration predecessors 0 i est = Inl RecursionError"
| "calc_es duration predecessors (Suc d) i est =
     (if i \<ge> length predecessors then Inl IndexError
      else if predecessors ! i \<noteq> [] then
        (case es_gen duration predecessors d (predecessors ! i) None est of
           Inl e \<Rightarrow> Inl e
         | Inr (None, est1) \<Rightarrow> Inl ValueError
         | Inr (Some m, est1) \<Rightarrow>
             if i \<ge> length est1 then Inl IndexError
             else Inr (est1[i := m] ! i, est1[i := m]))
      else if i \<ge> length est then Inl IndexError
      else Inr (est ! i, est))"
| "es_gen duration predecessors d [] m est = Inr (m, est)"
| "es_gen duration predecessors d (p # ps) m est =
     (case calc_es duration predecessors d p est of
        Inl e \<Rightarrow> Inl e
      | Inr (v, est1) \<Rightarrow>
          if p \<ge> length duration then Inl IndexError
          else es_gen duration predecessors d ps
                 (Some (case m of None \<Rightarrow> v + duration ! p | Some a \<Rightarrow> max a (v + duration ! p)))
                 est1)"

text \<open>
  \<^verbatim>\<open>calc_lf\<close>, in the same way, over \<^verbatim>\<open>duration\<close>, \<^verbatim>\<open>successors\<close>, \<^verbatim>\<open>est\<close> and the
  list \<^verbatim>\<open>lst\<close>. The test \<^verbatim>\<open>i == len(duration) - 1\<close> is written \<open>Suc i = length duration\<close>.
\<close>

fun calc_lf :: "int list \<Rightarrow> nat list list \<Rightarrow> int list \<Rightarrow> nat \<Rightarrow> nat \<Rightarrow> int list \<Rightarrow> error + int \<times> int list"
  and lf_gen :: "int list \<Rightarrow> nat list list \<Rightarrow> int list \<Rightarrow> nat \<Rightarrow> nat list \<Rightarrow> int option \<Rightarrow> int list
                   \<Rightarrow> error + int option \<times> int list" where
  "calc_lf duration successors est 0 i lst = Inl RecursionError"
| "calc_lf duration successors est (Suc d) i lst =
     (if Suc i = length duration then
        (if i \<ge> length est then Inl IndexError
         else if i \<ge> length lst then Inl IndexError
         else Inr (lst[i := est ! i] ! i, lst[i := est ! i]))
      else if i \<ge> length successors then Inl IndexError
      else if successors ! i \<noteq> [] then
        (case lf_gen duration successors est d (successors ! i) None lst of
           Inl e \<Rightarrow> Inl e
         | Inr (None, lst1) \<Rightarrow> Inl ValueError
         | Inr (Some m, lst1) \<Rightarrow>
             if i \<ge> length lst1 then Inl IndexError
             else Inr (lst1[i := m] ! i, lst1[i := m]))
      else if i \<ge> length lst then Inl IndexError
      else Inr (lst ! i, lst))"
| "lf_gen duration successors est d [] m lst = Inr (m, lst)"
| "lf_gen duration successors est d (s # ss) m lst =
     (case calc_lf duration successors est d s lst of
        Inl e \<Rightarrow> Inl e
      | Inr (v, lst1) \<Rightarrow>
          if s \<ge> length duration then Inl IndexError
          else lf_gen duration successors est d ss
                 (Some (case m of None \<Rightarrow> v - duration ! s | Some a \<Rightarrow> min a (v - duration ! s)))
                 lst1)"

text \<open>
  \<^verbatim>\<open>calculate_critical_times\<close>. \<open>limit\<close> is the recursion depth available to
  \<^verbatim>\<open>calc_es\<close> and \<^verbatim>\<open>calc_lf\<close>. \<^verbatim>\<open>if not successors\<close> holds for \<^verbatim>\<open>None\<close> and for
  the empty list. On an empty \<^verbatim>\<open>duration\<close> the first call is \<^verbatim>\<open>calc_es(-1)\<close>, whose
  \<^verbatim>\<open>predecessors[-1]\<close> raises on an empty list and is the last element otherwise; every
  index into the empty \<^verbatim>\<open>est\<close> raises.
\<close>

definition calculate_critical_times ::
  "nat \<Rightarrow> int list \<Rightarrow> nat list list \<Rightarrow> nat list list option \<Rightarrow> error + int list \<times> int list" where
  "calculate_critical_times limit duration predecessors successors =
     (let successors' = (case successors of
                           None \<Rightarrow> successors_by_predecessors predecessors
                         | Some sc \<Rightarrow> if sc = [] then successors_by_predecessors predecessors else sc);
          est0 = replicate (length duration) 0;
          lst0 = replicate (length duration) 0
      in if length duration = 0 \<and> predecessors = [] then Inl IndexError
         else
           (case calc_es duration predecessors limit
                   (if length duration = 0 then length predecessors - 1 else length duration - 1) est0 of
              Inl e \<Rightarrow> Inl e
            | Inr (v, est) \<Rightarrow>
                (case calc_lf duration successors' est limit 0 lst0 of
                   Inl e \<Rightarrow> Inl e
                 | Inr (w, lst) \<Rightarrow> Inr (est, lst))))"

section \<open>Properties of a schedule and of the profile\<close>

text \<open>
  The load of resource \<open>r\<close> at time \<open>t\<close> under start times \<open>st\<close>: the sum of the demands
  of the activities \<open>i\<close> with \<open>st ! i \<le> t < st ! i + duration ! i\<close>; \<open>dvals\<close> are the
  demand vectors themselves.
\<close>

definition load :: "int list \<Rightarrow> int list \<Rightarrow> int list list \<Rightarrow> int \<Rightarrow> nat \<Rightarrow> int" where
  "load st duration dvals t r =
     (\<Sum>i\<leftarrow>[0..<length st].
        if st ! i \<le> t \<and> t < st ! i + duration ! i then dvals ! i ! r else 0)"

text \<open>The times of the breakpoints in link order, from the pointer \<open>p\<close> on.\<close>

partial_function (option) profile_times :: "node list \<Rightarrow> nat option \<Rightarrow> int list option" where
  [code]: "profile_times ns p =
     (case p of
        None \<Rightarrow> Some []
      | Some a \<Rightarrow> Option.bind (profile_times ns (nxt (ns ! a))) (\<lambda>ts. Some (time (ns ! a) # ts)))"

section \<open>Well-formedness of the decoder state\<close>

text \<open>
  \<open>links ns p as q\<close>: following \<open>nxt\<close> from the pointer \<open>p\<close> visits exactly the
  addresses \<open>as\<close> and arrives at the pointer \<open>q\<close>.
\<close>

fun links :: "node list \<Rightarrow> nat option \<Rightarrow> nat list \<Rightarrow> nat option \<Rightarrow> bool" where
  "links ns p [] q = (p = q)"
| "links ns p (a # as) q = (p = Some a \<and> links ns (nxt (ns ! a)) as q)"

definition closed :: "node list \<Rightarrow> bool" where
  "closed ns = (\<forall>a<length ns. \<forall>b. nxt (ns ! a) = Some b \<longrightarrow> b < length ns)"

definition search_post :: "dstate \<Rightarrow> nat \<Rightarrow> int \<Rightarrow> nat \<Rightarrow> nat \<Rightarrow> int \<Rightarrow> error + nat \<times> nat \<times> int \<Rightarrow> bool" where
  "search_post s dem d node start ft y =
     (closed (nodes s) \<longrightarrow> node < length (nodes s) \<longrightarrow> start = node \<longrightarrow>
      ft = time (nodes s ! node) + d \<longrightarrow>
      (case y of Inl e \<Rightarrow> True
       | Inr (node', start', ft') \<Rightarrow>
          node' < length (nodes s) \<and> start' = node' \<and> ft' = time (nodes s ! node') + d
          \<and> enough (vecs s ! capacity (nodes s ! node')) (vecs s ! dem) = Inr True))"

definition wf_links :: "node list \<Rightarrow> nat list \<Rightarrow> bool" where
  "wf_links ns ps = (links ns (Some 0) ps None \<and> distinct ps \<and> set ps = {0..<length ns})"

definition place :: "nat \<Rightarrow> int \<Rightarrow> dstate \<Rightarrow> nat \<times> dstate" where
  "place node ft s =
     (case nxt (nodes s ! node) of
        None \<Rightarrow> insert_after node ft s
      | Some n \<Rightarrow> if time (nodes s ! n) \<noteq> ft then insert_after node ft s else (n, s))"

definition wf_caps :: "nat \<Rightarrow> int list list \<Rightarrow> node list \<Rightarrow> bool" where
  "wf_caps n0 vs ns =
     ((\<forall>a<length ns. n0 \<le> capacity (ns ! a) \<and> capacity (ns ! a) < length vs) \<and>
      (\<forall>a<length ns. \<forall>b<length ns. capacity (ns ! a) = capacity (ns ! b) \<longrightarrow> a = b))"

definition wf_lists :: "nat \<Rightarrow> node list \<Rightarrow> int list \<Rightarrow> nat option list \<Rightarrow> bool" where
  "wf_lists n ns st fns =
     (length st = n \<and> length fns = n \<and>
      (\<forall>i<n. \<forall>f. fns ! i = Some f \<longrightarrow> f < length ns))"

definition full_last :: "int list \<Rightarrow> int list list \<Rightarrow> node list \<Rightarrow> nat list \<Rightarrow> bool" where
  "full_last capv vs ns ps =
     (vs ! capacity (ns ! last ps) = capv \<and>
      (\<forall>a<length ns. length (vs ! capacity (ns ! a)) = length capv))"

definition decoder_inv :: "int list \<Rightarrow> nat \<Rightarrow> nat \<Rightarrow> dstate \<Rightarrow> bool" where
  "decoder_inv capv n0 n s =
     ((\<exists>ps. wf_links (nodes s) ps \<and> full_last capv (vecs s) (nodes s) ps) \<and>
      wf_caps n0 (vecs s) (nodes s) \<and> wf_lists n (nodes s) (starts s) (finish_nodes s))"

text \<open>What one placement leaves unchanged.\<close>

definition extends :: "dstate \<Rightarrow> dstate \<Rightarrow> bool" where
  "extends s s1 =
     (length (nodes s) \<le> length (nodes s1) \<and>
      (\<forall>a<length (nodes s). time (nodes s1 ! a) = time (nodes s ! a)) \<and>
      take (length (vecs s)) (vecs s1) = vecs s \<and>
      starts s1 = starts s \<and> finish_nodes s1 = finish_nodes s)"

text \<open>The finish node recorded for activity \<open>i\<close> has the time \<open>starts[i] + duration[i]\<close>.\<close>

definition finish_recorded :: "int list \<Rightarrow> dstate \<Rightarrow> nat \<Rightarrow> bool" where
  "finish_recorded duration s i =
     (case finish_nodes s ! i of
        None \<Rightarrow> False
      | Some f \<Rightarrow> f < length (nodes s) \<and> time (nodes s ! f) = starts s ! i + duration ! i)"

text \<open>A demand vector is component-wise within a capacity vector.\<close>

definition demand_within :: "int list \<Rightarrow> int list \<Rightarrow> bool" where
  "demand_within d c = (length d \<le> length c \<and> (\<forall>j<length d. d ! j \<le> c ! j))"

text \<open>
  An activity list is in topological order: the predecessors of the activity at position
  \<open>k\<close> all occur before position \<open>k\<close>.
\<close>

definition topological :: "nat list list \<Rightarrow> nat list \<Rightarrow> bool" where
  "topological predecessors alist =
     (\<forall>k<length alist. \<forall>p\<in>set (predecessors ! (alist ! k)). p \<in> set (take k alist))"

text \<open>
  The activities of \<open>alist\<close> can be decoded one after the other from state \<open>s\<close>:
  each has its predecessors among the activities already recorded or earlier in the list.
\<close>

fun decodable :: "nat list list \<Rightarrow> nat option list \<Rightarrow> nat list \<Rightarrow> bool" where
  "decodable predecessors fns [] = True"
| "decodable predecessors fns (i # alist) =
     ((\<forall>p\<in>set (predecessors ! i). p < length fns \<and> fns ! p \<noteq> None) \<and>
      decodable predecessors (fns[i := Some 0]) alist)"

section \<open>Properties of the predecessor structure and of the sampler loop\<close>

text \<open>The precedence relation: \<open>(p, i)\<close> when \<open>p\<close> is a predecessor of activity \<open>i\<close>.\<close>

definition pred_rel :: "nat list list \<Rightarrow> (nat \<times> nat) set" where
  "pred_rel predecessors = {(p, i). i < length predecessors \<and> p \<in> set (predecessors ! i)}"

text \<open>Every predecessor is an existing activity.\<close>

definition preds_exist :: "nat list list \<Rightarrow> bool" where
  "preds_exist predecessors =
     (\<forall>i<length predecessors. \<forall>p\<in>set (predecessors ! i). p < length predecessors)"

definition gen_inv :: "nat list list \<Rightarrow> nat list \<Rightarrow> nat set list \<Rightarrow> nat list \<Rightarrow> bool" where
  "gen_inv predecessors res rem ready =
     (length rem = length predecessors \<and>
      (\<forall>s<length predecessors. rem ! s = set (predecessors ! s) - set res) \<and>
      distinct (res @ ready) \<and>
      set res \<union> set ready = {i. i < length predecessors \<and> rem ! i = {}} \<and>
      topological predecessors res)"

text \<open>
  Position \<open>k\<close> holds the first minimum of the keys of \<open>xs\<close>: no key is smaller and
  every earlier key is strictly greater.
\<close>

definition first_min :: "(nat \<Rightarrow> 'k :: linorder) \<Rightarrow> nat list \<Rightarrow> nat \<Rightarrow> bool" where
  "first_min rule xs k =
     (k < length xs \<and> (\<forall>j<length xs. rule (xs ! k) \<le> rule (xs ! j)) \<and>
      (\<forall>j<k. rule (xs ! k) < rule (xs ! j)))"

text \<open>The position of the first occurrence of \<open>x\<close> in \<open>xs\<close>.\<close>

definition pos :: "nat list \<Rightarrow> nat \<Rightarrow> nat" where
  "pos xs x = length (takeWhile (\<lambda>y. y \<noteq> x) xs)"

text \<open>
  The number of activities emitted before activity \<open>j\<close> entered the ready list, read off
  the emitted activities: an activity without predecessors is ready from the start, any
  other activity becomes ready when the last of its predecessors is emitted.
\<close>

definition entered :: "nat list list \<Rightarrow> nat list \<Rightarrow> nat \<Rightarrow> nat" where
  "entered predecessors emitted j =
     (if predecessors ! j = [] then 0
      else Suc (Max (pos emitted ` set (predecessors ! j))))"

text \<open>
  Activity \<open>a\<close> entered the ready list before activity \<open>b\<close>: at an earlier step, or at
  the same step with the smaller index (activities that become ready together are
  appended in the order of \<^verbatim>\<open>range(n)\<close>).
\<close>

definition entered_before :: "nat list list \<Rightarrow> nat list \<Rightarrow> nat \<Rightarrow> nat \<Rightarrow> bool" where
  "entered_before predecessors emitted a b =
     (entered predecessors emitted a < entered predecessors emitted b \<or>
      (entered predecessors emitted a = entered predecessors emitted b \<and> a < b))"

text \<open>Activity \<open>j\<close> is ready once the activities \<open>emitted\<close> are out.\<close>

definition ready_at :: "nat list list \<Rightarrow> nat list \<Rightarrow> nat \<Rightarrow> bool" where
  "ready_at predecessors emitted j =
     (j < length predecessors \<and> j \<notin> set emitted \<and> set (predecessors ! j) \<subseteq> set emitted)"

text \<open>The selection rule prefers \<open>a\<close> to \<open>b\<close>: smaller key, or equal keys and earlier entry.\<close>

definition preferred ::
  "nat list list \<Rightarrow> (nat \<Rightarrow> 'k :: linorder) \<Rightarrow> nat list \<Rightarrow> nat \<Rightarrow> nat \<Rightarrow> bool" where
  "preferred predecessors rule emitted a b =
     (rule a < rule b \<or> (rule a = rule b \<and> entered_before predecessors emitted a b))"

text \<open>
  Every element of \<open>res\<close> is, at its step, a ready activity that the selection rule
  prefers to every other ready activity.
\<close>

definition sel_prefix :: "nat list list \<Rightarrow> (nat \<Rightarrow> 'k :: linorder) \<Rightarrow> nat list \<Rightarrow> bool" where
  "sel_prefix predecessors rule res =
     (\<forall>k<length res.
        ready_at predecessors (take k res) (res ! k) \<and>
        (\<forall>j. ready_at predecessors (take k res) j \<longrightarrow>
               j = res ! k \<or> preferred predecessors rule (take k res) (res ! k) j))"

definition selects :: "nat list list \<Rightarrow> (nat \<Rightarrow> 'k :: linorder) \<Rightarrow> nat list \<Rightarrow> bool" where
  "selects predecessors rule res =
     (length res = length predecessors \<and> sel_prefix predecessors rule res)"

text \<open>The maximum of \<open>est[p] + duration[p]\<close> over the activities \<open>p\<close> of a list.\<close>

definition es_max :: "int list \<Rightarrow> int list \<Rightarrow> nat list \<Rightarrow> int" where
  "es_max duration est ps = Max ((\<lambda>p. est ! p + duration ! p) ` set ps)"

text \<open>The earliest-start recurrence at activity \<open>j\<close>.\<close>

definition rec_es :: "int list \<Rightarrow> nat list list \<Rightarrow> int list \<Rightarrow> nat \<Rightarrow> bool" where
  "rec_es duration predecessors est j =
     (est ! j = (if predecessors ! j = [] then 0 else es_max duration est (predecessors ! j)))"

text \<open>
  The state of \<^verbatim>\<open>est\<close> during the recursion: the recurrence holds on a set \<open>S\<close> of
  activities that contains the predecessors of its members, and activities without
  predecessors still have the initial value 0.
\<close>

definition es_inv :: "int list \<Rightarrow> nat list list \<Rightarrow> int list \<Rightarrow> nat set \<Rightarrow> bool" where
  "es_inv duration predecessors est S =
     (length est = length predecessors \<and> S \<subseteq> {0..<length predecessors} \<and>
      (\<forall>j\<in>S. set (predecessors ! j) \<subseteq> S) \<and>
      (\<forall>j\<in>S. rec_es duration predecessors est j) \<and>
      (\<forall>j<length predecessors. predecessors ! j = [] \<longrightarrow> est ! j = 0))"

text \<open>What a call \<^verbatim>\<open>calc_es(i)\<close> in state \<open>est\<close> returns, when it returns \<open>r\<close>.\<close>

definition es_post ::
  "int list \<Rightarrow> nat list list \<Rightarrow> int list \<Rightarrow> nat set \<Rightarrow> nat \<Rightarrow> error + int \<times> int list \<Rightarrow> bool" where
  "es_post duration predecessors est S i r =
     (case r of
        Inl e \<Rightarrow> False
      | Inr (v, est') \<Rightarrow>
          v = est' ! i \<and>
          (\<exists>S'. es_inv duration predecessors est' S' \<and> S \<subseteq> S' \<and> i \<in> S' \<and>
                (\<forall>j\<in>S. est' ! j = est ! j)))"

text \<open>Activity \<open>n - 1\<close> is the only activity that is nobody's predecessor.\<close>

definition single_sink :: "nat list list \<Rightarrow> bool" where
  "single_sink predecessors =
     (\<forall>j<length predecessors.
        (\<exists>s<length predecessors. j \<in> set (predecessors ! s)) \<longleftrightarrow> Suc j \<noteq> length predecessors)"

text \<open>The minimum of \<open>lst[s] - duration[s]\<close> over the activities \<open>s\<close> of a list.\<close>

definition lf_min :: "int list \<Rightarrow> int list \<Rightarrow> nat list \<Rightarrow> int" where
  "lf_min duration lst ss = Min ((\<lambda>s. lst ! s - duration ! s) ` set ss)"

text \<open>The recurrence that \<^verbatim>\<open>calc_lf\<close> establishes at activity \<open>j\<close>.\<close>

definition rec_lf :: "int list \<Rightarrow> nat list list \<Rightarrow> int list \<Rightarrow> int list \<Rightarrow> nat \<Rightarrow> bool" where
  "rec_lf duration successors est lst j =
     (lst ! j = (if Suc j = length duration then est ! j
                 else if successors ! j = [] then 0
                 else lf_min duration lst (successors ! j)))"

definition lf_inv :: "int list \<Rightarrow> nat list list \<Rightarrow> int list \<Rightarrow> int list \<Rightarrow> nat set \<Rightarrow> bool" where
  "lf_inv duration successors est lst S =
     (length lst = length duration \<and> S \<subseteq> {0..<length duration} \<and>
      (\<forall>j\<in>S. Suc j \<noteq> length duration \<longrightarrow> set (successors ! j) \<subseteq> S) \<and>
      (\<forall>j\<in>S. rec_lf duration successors est lst j) \<and>
      (\<forall>j<length duration. Suc j \<noteq> length duration \<longrightarrow> successors ! j = [] \<longrightarrow> lst ! j = 0))"

definition lf_post ::
  "int list \<Rightarrow> nat list list \<Rightarrow> int list \<Rightarrow> int list \<Rightarrow> nat set \<Rightarrow> nat \<Rightarrow> error + int \<times> int list \<Rightarrow> bool" where
  "lf_post duration successors est lst S i r =
     (case r of
        Inl e \<Rightarrow> False
      | Inr (v, lst') \<Rightarrow>
          v = lst' ! i \<and>
          (\<exists>S'. lf_inv duration successors est lst' S' \<and> S \<subseteq> S' \<and> i \<in> S' \<and>
                (\<forall>j\<in>S. lst' ! j = lst ! j)))"


section \<open>The decoder on concrete networks\<close>

text \<open>
  The network used below has five activities: the source 0 (duration 1), activity 1
  (duration 2, after 0), activity 2 (duration 5, after 1), activity 3 (duration 5,
  after 0) and the sink 4 (duration 1, after 2 and 3). Activities 2 and 3 each need the
  single unit of the one resource. The store holds the capacity vector at address 0 and
  the demand vectors at addresses 1 to 5.
\<close>

text \<open>
  Claim C1 (resource feasibility of the decoded schedule) at this network, decoded in the
  topological order 0, 1, 2, 3, 4 with every demand within the capacity: \<^verbatim>\<open>decode\<close>
  returns the start times 0, 1, 3, 1, 8, so that activity 3 runs over \<open>[1, 6)\<close> and
  activity 2 over \<open>[3, 8)\<close>, and at time 3 the load of the resource is 2 while its
  capacity is 1.
\<close>

theorem decode_overloads_resource:
  "decode [[1], [0], [0], [1], [1], [0]] [0, 1, 2, 3, 4] [1, 2, 5, 5, 1]
          [[], [0], [1], [0], [2, 3]] [1, 2, 3, 4, 5] 0
     = Some (Inr [0, 1, 3, 1, 8],
             [[1], [0], [0], [1], [1], [0], [1], [0], [0], [1], [1], [1]])
   \<and> load [0, 1, 3, 1, 8] [1, 2, 5, 5, 1] [[0], [0], [1], [1], [0]] 3 0 = 2
   \<and> [1 :: int] ! 0 = 1"
  by code_simp

text \<open>
  Claim C2 (precedence) on a network with capacity 2: source 0 (duration 1), activity 1
  (duration 2, demand 1, after 0), activity 2 (duration 5, demand 1, after 0), activity 3
  (duration 1, demand 2, after 2) and the sink 4 (after 1 and 3), decoded in the
  topological order 0, 1, 2, 3, 4. Activity 3 is given the start time 3, although its
  predecessor 2 starts at 1 and lasts 5: the search for capacity moves from the finish
  breakpoint of activity 2 (time 6) to the next breakpoint in link order, whose time is 3.
\<close>

theorem decode_breaks_precedence:
  "decode [[2], [0], [1], [1], [2], [0]] [0, 1, 2, 3, 4] [1, 2, 5, 1, 1]
          [[], [0], [0], [2], [1, 3]] [1, 2, 3, 4, 5] 0
     = Some (Inr [0, 1, 1, 3, 4],
             [[2], [0], [1], [1], [2], [0], [2], [0], [0], [1], [2], [2]])
   \<and> (2 :: nat) \<in> set ([[], [0], [0], [2], [1, 3]] ! 3)
   \<and> [0, 1, 1, 3, 4 :: int] ! 3 < [0, 1, 1, 3, 4] ! 2 + [1, 2, 5, 1, 1] ! 2"
  by code_simp

text \<open>
  Claim C3 (strictly increasing breakpoint times) at the first network: after the
  activities 0, 1, 2 the breakpoints in link order have the times 0, 1, 3, 8; processing
  activity 3 (start 1, finish 6) links the new breakpoint of time 6 directly after the
  breakpoint of time 1, before the breakpoint of time 3.
\<close>

theorem decode_profile_out_of_order:
  "map_option (\<lambda>(e, s). (e, profile_times (nodes s) (Some 0)))
     (decode_run [[1], [0], [0], [1], [1], [0]] [0, 1, 2] [1, 2, 5, 5, 1]
        [[], [0], [1], [0], [2, 3]] [1, 2, 3, 4, 5] 0)
     = Some (None, Some [0, 1, 3, 8])
   \<and> map_option (\<lambda>(e, s). (e, profile_times (nodes s) (Some 0)))
     (decode_run [[1], [0], [0], [1], [1], [0]] [0, 1, 2, 3] [1, 2, 5, 5, 1]
        [[], [0], [1], [0], [2, 3]] [1, 2, 3, 4, 5] 0)
     = Some (None, Some [0, 1, 6, 3, 8])"
  by code_simp

section \<open>Lemmas on the profile and the loops of the decoder\<close>

lemma links_append: "links ns p (xs @ ys) q = (\<exists>r. links ns p xs r \<and> links ns r ys q)"
  by (induction xs arbitrary: p) auto

lemma links_same_nxt:
  "(\<And>a. a \<in> set as \<Longrightarrow> nxt (ns' ! a) = nxt (ns ! a)) \<Longrightarrow> links ns' p as q = links ns p as q"
  by (induction as arbitrary: p) auto

lemma enough_length: "enough c d = Inr True \<Longrightarrow> length d \<le> length c"
  by (induction c d rule: enough.induct) (auto split: if_splits)

lemma consume_ok: "length d \<le> length c \<Longrightarrow> fst (consume c d) = None"
  by (induction c d rule: consume.induct) (auto split: prod.splits)

lemma search_loop_post:
  assumes "search_loop s dem d node start ft = Some y"
  shows "search_post s dem d node start ft y"
proof (rule search_loop.raw_induct[where P = search_post, OF _ assms])
  fix f s dem d node start ft y
  assume IH: "\<And>s dem d node start ft y. f s dem d node start ft = Some y \<Longrightarrow> search_post s dem d node start ft y"
    and eq: "(case enough (vecs s ! capacity (nodes s ! node)) (vecs s ! dem) of
      Inl e \<Rightarrow> Some (Inl e)
      | Inr b \<Rightarrow>
          if b then Some (Inr (node, start, ft))
          else case nxt (nodes s ! node) of None \<Rightarrow> Some (Inl AttributeError)
               | Some n \<Rightarrow> f s dem d n n (time (nodes s ! n) + d)) = Some y"
  show "search_post s dem d node start ft y"
  proof (cases "enough (vecs s ! capacity (nodes s ! node)) (vecs s ! dem)")
    case (Inl e)
    with eq show ?thesis by (auto simp: search_post_def)
  next
    case (Inr b)
    show ?thesis
    proof (cases b)
      case True
      with Inr eq have "y = Inr (node, start, ft)" by simp
      with True Inr show ?thesis by (auto simp: search_post_def)
    next
      case False
      show ?thesis
      proof (cases "nxt (nodes s ! node)")
        case None
        with False Inr eq show ?thesis by (auto simp: search_post_def)
      next
        case (Some n)
        with False Inr eq have call: "f s dem d n n (time (nodes s ! n) + d) = Some y" by simp
        have "closed (nodes s) \<Longrightarrow> node < length (nodes s) \<Longrightarrow> n < length (nodes s)"
          using Some unfolding closed_def by blast
        with IH[OF call] show ?thesis by (auto simp: search_post_def)
      qed
    qed
  qed
qed

lemma insert_after_fst: "fst (insert_after self tm s) = length (nodes s)"
  by (simp add: insert_after_def copy_def Let_def)

lemma insert_after_vecs:
  "vecs (snd (insert_after self tm s)) = vecs s @ [vecs s ! capacity (nodes s ! self)]"
  by (simp add: insert_after_def copy_def Let_def)

lemma insert_after_starts: "starts (snd (insert_after self tm s)) = starts s"
  by (simp add: insert_after_def copy_def Let_def)

lemma insert_after_finish_nodes: "finish_nodes (snd (insert_after self tm s)) = finish_nodes s"
  by (simp add: insert_after_def copy_def Let_def)

lemma insert_after_length: "length (nodes (snd (insert_after self tm s))) = Suc (length (nodes s))"
  by (simp add: insert_after_def copy_def Let_def split: option.splits)

lemma insert_after_old_time:
  "a < length (nodes s) \<Longrightarrow> time (nodes (snd (insert_after self tm s)) ! a) = time (nodes s ! a)"
  by (simp add: insert_after_def copy_def Let_def nth_list_update nth_append split: option.splits)

lemma insert_after_old_capacity:
  "a < length (nodes s) \<Longrightarrow>
   capacity (nodes (snd (insert_after self tm s)) ! a) = capacity (nodes s ! a)"
  by (simp add: insert_after_def copy_def Let_def nth_list_update nth_append split: option.splits)

lemma insert_after_old_nxt:
  "a < length (nodes s) \<Longrightarrow>
   nxt (nodes (snd (insert_after self tm s)) ! a)
     = (if a = self then Some (length (nodes s)) else nxt (nodes s ! a))"
  by (simp add: insert_after_def copy_def Let_def nth_list_update nth_append split: option.splits)

lemma insert_after_new_time:
  "closed (nodes s) \<Longrightarrow> self < length (nodes s) \<Longrightarrow> time (nodes (snd (insert_after self tm s)) ! length (nodes s)) = tm"
  by (auto simp: closed_def insert_after_def copy_def Let_def nth_list_update nth_append split: option.splits)

lemma insert_after_new_capacity:
  "closed (nodes s) \<Longrightarrow> self < length (nodes s) \<Longrightarrow> capacity (nodes (snd (insert_after self tm s)) ! length (nodes s)) = length (vecs s)"
  by (auto simp: closed_def insert_after_def copy_def Let_def nth_list_update nth_append split: option.splits)

lemma insert_after_new_nxt:
  "closed (nodes s) \<Longrightarrow> self < length (nodes s) \<Longrightarrow>
   nxt (nodes (snd (insert_after self tm s)) ! length (nodes s)) = nxt (nodes s ! self)"
  by (auto simp: closed_def insert_after_def copy_def Let_def nth_list_update nth_append split: option.splits)

lemma wf_links_split:
  assumes "wf_links (nodes s) ps" and "a < length (nodes s)"
  obtains xs ys where "ps = xs @ a # ys" and "links (nodes s) (Some 0) xs (Some a)"
    and "links (nodes s) (nxt (nodes s ! a)) ys None" and "a \<notin> set xs" and "a \<notin> set ys"
proof -
  from assms have "a \<in> set ps" by (simp add: wf_links_def)
  then obtain xs ys where ps: "ps = xs @ a # ys" by (auto simp: in_set_conv_decomp)
  from assms(1) have l: "links (nodes s) (Some 0) (xs @ a # ys) None" and d: "distinct (xs @ a # ys)"
    by (simp_all add: wf_links_def ps)
  from l obtain r where "links (nodes s) (Some 0) xs r" and "links (nodes s) r (a # ys) None"
    by (auto simp: links_append)
  then have "links (nodes s) (Some 0) xs (Some a)" and "links (nodes s) (nxt (nodes s ! a)) ys None"
    by auto
  moreover from d have "a \<notin> set xs" and "a \<notin> set ys" by auto
  ultimately show thesis using that ps by blast
qed

lemma wf_links_closed: "wf_links (nodes s) ps \<Longrightarrow> closed (nodes s)"
  unfolding closed_def
proof (intro allI impI)
  fix a b
  assume wf: "wf_links (nodes s) ps" and a: "a < length (nodes s)" and n: "nxt (nodes s ! a) = Some b"
  from wf a obtain xs ys where ps: "ps = xs @ a # ys"
    and l: "links (nodes s) (nxt (nodes s ! a)) ys None"
    by (rule wf_links_split)
  from l n have "b \<in> set ys" by (cases ys) auto
  with ps have "b \<in> set ps" by simp
  with wf show "b < length (nodes s)" by (simp add: wf_links_def)
qed

lemma wf_links_nonempty: "wf_links (nodes s) ps \<Longrightarrow> ps \<noteq> [] \<and> 0 < length (nodes s)"
  by (cases ps) (auto simp: wf_links_def)

lemma wf_links_last:
  assumes "wf_links (nodes s) ps"
  shows "last ps < length (nodes s) \<and> nxt (nodes s ! last ps) = None"
proof -
  from assms have "ps \<noteq> []" by (simp add: wf_links_nonempty)
  then obtain ys y where ps: "ps = ys @ [y]" by (cases ps rule: rev_cases) auto
  from assms have "links (nodes s) (Some 0) (ys @ [y]) None" and "y \<in> {0..<length (nodes s)}"
    by (auto simp: wf_links_def ps)
  then have "nxt (nodes s ! y) = None" and "y < length (nodes s)" by (auto simp: links_append)
  then show ?thesis by (simp add: ps)
qed

lemma wf_links_succ:
  assumes "wf_links (nodes s) ps" and "a < length (nodes s)" and "nxt (nodes s ! a) = Some b"
  shows "b \<noteq> a \<and> b < length (nodes s)"
proof -
  from assms(1,2) obtain xs ys where ps: "ps = xs @ a # ys"
    and l: "links (nodes s) (nxt (nodes s ! a)) ys None" and nin: "a \<notin> set ys"
    by (rule wf_links_split)
  from l assms(3) have "b \<in> set ys" by (cases ys) auto
  with nin have "b \<noteq> a" by auto
  moreover from wf_links_closed[OF assms(1)] assms(2,3) have "b < length (nodes s)"
    unfolding closed_def by blast
  ultimately show ?thesis by simp
qed

lemma wf_links_insert:
  assumes wf: "wf_links (nodes s) ps" and self: "self < length (nodes s)"
  shows "\<exists>ps'. wf_links (nodes (snd (insert_after self tm s))) ps' \<and>
           last ps' = (if nxt (nodes s ! self) = None then length (nodes s) else last ps)"
proof -
  let ?s' = "snd (insert_after self tm s)"
  let ?new = "length (nodes s)"
  from wf self obtain xs ys where ps: "ps = xs @ self # ys"
    and lx: "links (nodes s) (Some 0) xs (Some self)"
    and ly: "links (nodes s) (nxt (nodes s ! self)) ys None"
    and nx: "self \<notin> set xs" and ny: "self \<notin> set ys"
    by (rule wf_links_split)
  have cl: "closed (nodes s)" using wf by (rule wf_links_closed)
  have old: "set ps = {0..<?new}" and dist: "distinct ps" using wf by (simp_all add: wf_links_def)
  have xs_old: "\<And>a. a \<in> set xs \<Longrightarrow> a < ?new" and ys_old: "\<And>a. a \<in> set ys \<Longrightarrow> a < ?new"
    using old ps by auto
  have lx': "links (nodes ?s') (Some 0) xs (Some self)"
    using lx nx xs_old by (subst links_same_nxt[where ns = "nodes s"]) (auto simp: insert_after_old_nxt)
  have ly': "links (nodes ?s') (nxt (nodes s ! self)) ys None"
    using ly ny ys_old by (subst links_same_nxt[where ns = "nodes s"]) (auto simp: insert_after_old_nxt)
  have n1: "nxt (nodes ?s' ! self) = Some ?new" using self by (simp add: insert_after_old_nxt)
  have n2: "nxt (nodes ?s' ! ?new) = nxt (nodes s ! self)"
    using cl self by (rule insert_after_new_nxt)
  let ?ps' = "xs @ self # ?new # ys"
  have "links (nodes ?s') (Some 0) ?ps' None"
    using lx' ly' n1 n2 by (auto simp: links_append)
  moreover have "distinct ?ps'"
  proof -
    have "?new \<notin> set xs" "?new \<notin> set ys" "?new \<noteq> self"
      using xs_old ys_old self by blast+
    moreover have "distinct (xs @ self # ys)" using dist unfolding ps .
    ultimately show ?thesis by simp
  qed
  moreover have "set ?ps' = {0..<length (nodes ?s')}"
  proof -
    have e: "set (xs @ self # ys) = {0..<?new}" using old unfolding ps .
    have "set ?ps' = insert ?new (set (xs @ self # ys))" by auto
    also have "\<dots> = insert ?new {0..<?new}" by (simp only: e)
    also have "\<dots> = {0..<Suc ?new}" by (simp only: atLeast0_lessThan_Suc)
    finally show ?thesis by (simp only: insert_after_length)
  qed
  ultimately have "wf_links (nodes ?s') ?ps'" by (simp add: wf_links_def)
  moreover have "nxt (nodes s ! self) = None \<longleftrightarrow> ys = []"
    using ly by (cases ys) auto
  then have "last ?ps' = (if nxt (nodes s ! self) = None then ?new else last ps)"
    by (simp add: ps)
  ultimately show ?thesis by blast
qed

lemma wf_links_end:
  assumes "wf_links (nodes s) ps" and "a < length (nodes s)" and "nxt (nodes s ! a) = None"
  shows "a = last ps"
proof -
  from assms(1,2) obtain xs ys where ps: "ps = xs @ a # ys"
    and l: "links (nodes s) (nxt (nodes s ! a)) ys None"
    by (rule wf_links_split)
  from l assms(3) have "ys = []" by (cases ys) auto
  with ps show ?thesis by simp
qed

lemma decode_body_normalE:
  assumes "decode_body duration predecessors demands i s = Some (None, s')"
  obtains start0 node start ft fin s1 s2 where
    "i < length predecessors" "pred_loop s (predecessors ! i) 0 = Inr start0"
    "i < length duration" "i < length demands"
    "search_loop s (demands ! i) (duration ! i) start0 start0
       (time (nodes s ! start0) + duration ! i) = Some (Inr (node, start, ft))"
    "place node ft s = (fin, s1)"
    "consume_loop (demands ! i) fin (Some start) s1 = Some (None, s2)"
    "s' = s2\<lparr>starts := (starts s2)[i := time (nodes s2 ! start)],
              finish_nodes := (finish_nodes s2)[i := Some fin]\<rparr>"
  using assms unfolding decode_body_def place_def
  by (auto simp: Let_def split: if_splits sum.splits option.splits prod.splits)

lemma place_reuse:
  assumes wf: "wf_links (nodes s) ps" and node: "node < length (nodes s)"
    and pl: "place node ft s = (fin, s1)" and nx: "nxt (nodes s ! node) = Some m"
    and tm: "time (nodes s ! m) = ft"
  shows "s1 = s \<and> fin = m \<and> fin \<noteq> node \<and> fin < length (nodes s)"
  using pl nx tm wf_links_succ[OF wf node nx] by (simp add: place_def)

lemma place_insert_eq:
  assumes "nxt (nodes s ! node) = None \<or> (\<exists>m. nxt (nodes s ! node) = Some m \<and> time (nodes s ! m) \<noteq> ft)"
  shows "place node ft s = insert_after node ft s"
  using assms by (auto simp: place_def)

lemma place_cases:
  obtains (reuse) m where "nxt (nodes s ! node) = Some m" "time (nodes s ! m) = ft"
  | (insert) "place node ft s = insert_after node ft s"
proof (cases "nxt (nodes s ! node)")
  case None
  then show ?thesis using insert by (simp add: place_def)
next
  case (Some m)
  show ?thesis
  proof (cases "time (nodes s ! m) = ft")
    case True
    with Some show ?thesis using reuse by blast
  next
    case False
    with Some show ?thesis using insert by (simp add: place_def)
  qed
qed

lemma consume_length: "fst (consume c d) = None \<Longrightarrow> length (snd (consume c d)) = length c"
  by (induction c d rule: consume.induct) (auto split: prod.splits)

lemma consume_loop_once:
  assumes "node \<noteq> fin" and "nxt (nodes s ! node) = Some fin"
  shows "consume_loop dem fin (Some node) s =
           Some (fst (consume (vecs s ! capacity (nodes s ! node)) (vecs s ! dem)),
                 s\<lparr>vecs := (vecs s)[capacity (nodes s ! node) :=
                        snd (consume (vecs s ! capacity (nodes s ! node)) (vecs s ! dem))]\<rparr>)"
proof (cases "consume (vecs s ! capacity (nodes s ! node)) (vecs s ! dem)")
  case (Pair e v)
  show ?thesis
  proof (cases e)
    case None
    have "consume_loop dem fin (Some fin) (s\<lparr>vecs := (vecs s)[capacity (nodes s ! node) := v]\<rparr>)
            = Some (None, s\<lparr>vecs := (vecs s)[capacity (nodes s ! node) := v]\<rparr>)"
      by (subst consume_loop.simps) simp
    with None Pair assms show ?thesis
      by (subst consume_loop.simps) (simp add: Let_def)
  next
    case (Some x)
    with Pair assms show ?thesis
      by (subst consume_loop.simps) (simp add: Let_def)
  qed
qed

lemma place_insert_props:
  assumes wf: "wf_links (nodes s) ps" and fl: "full_last capv (vecs s) (nodes s) ps"
    and wc: "wf_caps n0 (vecs s) (nodes s)" and wl: "wf_lists n (nodes s) (starts s) (finish_nodes s)"
    and node: "node < length (nodes s)"
  shows "\<exists>ps1. wf_links (nodes (snd (insert_after node ft s))) ps1 \<and>
           full_last capv (vecs (snd (insert_after node ft s))) (nodes (snd (insert_after node ft s))) ps1"
    and "wf_caps n0 (vecs (snd (insert_after node ft s))) (nodes (snd (insert_after node ft s)))"
    and "wf_lists n (nodes (snd (insert_after node ft s))) (starts s) (finish_nodes s)"
proof -
  let ?s1 = "snd (insert_after node ft s)"
  let ?new = "length (nodes s)"
  have cl: "closed (nodes s)" using wf by (rule wf_links_closed)
  have len: "length (nodes ?s1) = Suc ?new" by (rule insert_after_length)
  have vs1: "vecs ?s1 = vecs s @ [vecs s ! capacity (nodes s ! node)]" by (rule insert_after_vecs)
  have oldc: "\<And>a. a < ?new \<Longrightarrow> capacity (nodes ?s1 ! a) = capacity (nodes s ! a)"
    by (rule insert_after_old_capacity)
  have newc: "capacity (nodes ?s1 ! ?new) = length (vecs s)"
    using cl node by (rule insert_after_new_capacity)
  have cb: "\<And>a. a < ?new \<Longrightarrow> n0 \<le> capacity (nodes s ! a) \<and> capacity (nodes s ! a) < length (vecs s)"
    using wc by (simp add: wf_caps_def)
  have oldv: "\<And>a. a < ?new \<Longrightarrow> vecs ?s1 ! capacity (nodes ?s1 ! a) = vecs s ! capacity (nodes s ! a)"
    using cb by (simp add: vs1 oldc nth_append)
  have newv: "vecs ?s1 ! capacity (nodes ?s1 ! ?new) = vecs s ! capacity (nodes s ! node)"
    by (simp add: vs1 newc)
  have lens: "\<And>a. a < ?new \<Longrightarrow> length (vecs s ! capacity (nodes s ! a)) = length capv"
    using fl by (simp add: full_last_def)
  from wf_links_insert[OF wf node, of ft] obtain ps1 where wf1: "wf_links (nodes ?s1) ps1"
    and last1: "last ps1 = (if nxt (nodes s ! node) = None then ?new else last ps)" by blast
  have lastv: "vecs ?s1 ! capacity (nodes ?s1 ! last ps1) = capv"
  proof (cases "nxt (nodes s ! node)")
    case None
    then have "node = last ps" using wf node by (simp add: wf_links_end)
    with None last1 newv fl show ?thesis by (simp add: full_last_def)
  next
    case (Some m)
    have "last ps < ?new" using wf_links_last[OF wf] by simp
    with Some last1 oldv fl show ?thesis by (simp add: full_last_def)
  qed
  have "\<And>a. a < Suc ?new \<Longrightarrow> length (vecs ?s1 ! capacity (nodes ?s1 ! a)) = length capv"
  proof -
    fix a assume "a < Suc ?new"
    then consider "a < ?new" | "a = ?new" by linarith
    then show "length (vecs ?s1 ! capacity (nodes ?s1 ! a)) = length capv"
      using oldv newv lens node by cases simp_all
  qed
  with lastv have "full_last capv (vecs ?s1) (nodes ?s1) ps1" by (simp add: full_last_def len)
  with wf1 show "\<exists>ps1. wf_links (nodes ?s1) ps1 \<and> full_last capv (vecs ?s1) (nodes ?s1) ps1"
    by blast
  have b1: "\<And>a. a < Suc ?new \<Longrightarrow> n0 \<le> capacity (nodes ?s1 ! a) \<and> capacity (nodes ?s1 ! a) < length (vecs ?s1)"
  proof -
    fix a assume "a < Suc ?new"
    then consider "a < ?new" | "a = ?new" by linarith
    then show "n0 \<le> capacity (nodes ?s1 ! a) \<and> capacity (nodes ?s1 ! a) < length (vecs ?s1)"
    proof cases
      case 1
      with cb[OF 1] show ?thesis by (simp add: oldc vs1)
    next
      case 2
      from cb[OF node] have "n0 \<le> length (vecs s)" by simp
      with 2 show ?thesis by (simp add: newc vs1)
    qed
  qed
  have inj: "\<And>a b. a < ?new \<Longrightarrow> b < ?new \<Longrightarrow> capacity (nodes s ! a) = capacity (nodes s ! b) \<Longrightarrow> a = b"
    using wc by (simp add: wf_caps_def)
  have b2: "\<And>a b. a < Suc ?new \<Longrightarrow> b < Suc ?new \<Longrightarrow>
              capacity (nodes ?s1 ! a) = capacity (nodes ?s1 ! b) \<Longrightarrow> a = b"
  proof -
    fix a b assume a: "a < Suc ?new" and b: "b < Suc ?new"
      and e: "capacity (nodes ?s1 ! a) = capacity (nodes ?s1 ! b)"
    show "a = b"
    proof (cases "a < ?new")
      case True
      note A = this
      show ?thesis
      proof (cases "b < ?new")
        case True
        with A e inj show ?thesis by (simp add: oldc)
      next
        case False
        with b have "b = ?new" by simp
        with A e cb[OF A] show ?thesis by (simp add: oldc newc)
      qed
    next
      case False
      with a have A: "a = ?new" by simp
      show ?thesis
      proof (cases "b < ?new")
        case True
        with A e cb[OF True] show ?thesis by (simp add: oldc newc)
      next
        case False
        with b A show ?thesis by simp
      qed
    qed
  qed
  from b1 b2 show "wf_caps n0 (vecs ?s1) (nodes ?s1)"
    unfolding wf_caps_def len by blast
  from wl show "wf_lists n (nodes ?s1) (starts s) (finish_nodes s)"
    unfolding wf_lists_def len by (meson less_Suc_eq)
qed

lemma place_props:
  assumes wf: "wf_links (nodes s) ps" and fl: "full_last capv (vecs s) (nodes s) ps"
    and wc: "wf_caps n0 (vecs s) (nodes s)" and wl: "wf_lists n (nodes s) (starts s) (finish_nodes s)"
    and node: "node < length (nodes s)" and pl: "place node ft s = (fin, s1)"
  shows "\<exists>ps1. wf_links (nodes s1) ps1 \<and> full_last capv (vecs s1) (nodes s1) ps1"
    and "wf_caps n0 (vecs s1) (nodes s1)"
    and "wf_lists n (nodes s1) (starts s1) (finish_nodes s1)"
    and "nxt (nodes s1 ! node) = Some fin" and "fin \<noteq> node" and "fin < length (nodes s1)"
    and "time (nodes s1 ! fin) = ft" and "extends s s1"
    and "capacity (nodes s1 ! node) = capacity (nodes s ! node)"
    and "vecs s1 ! capacity (nodes s ! node) = vecs s ! capacity (nodes s ! node)"
proof -
  have cl: "closed (nodes s)" using wf by (rule wf_links_closed)
  have cb: "capacity (nodes s ! node) < length (vecs s)" using wc node by (simp add: wf_caps_def)
  have all: "(\<exists>ps1. wf_links (nodes s1) ps1 \<and> full_last capv (vecs s1) (nodes s1) ps1)
     \<and> wf_caps n0 (vecs s1) (nodes s1) \<and> wf_lists n (nodes s1) (starts s1) (finish_nodes s1)
     \<and> nxt (nodes s1 ! node) = Some fin \<and> fin \<noteq> node \<and> fin < length (nodes s1)
     \<and> time (nodes s1 ! fin) = ft \<and> extends s s1
     \<and> capacity (nodes s1 ! node) = capacity (nodes s ! node)
     \<and> vecs s1 ! capacity (nodes s ! node) = vecs s ! capacity (nodes s ! node)"
  proof (cases rule: place_cases[of s node ft])
    case (reuse m)
    from place_reuse[OF wf node pl reuse] have e: "s1 = s" "fin = m" "fin \<noteq> node" "fin < length (nodes s)"
      by simp_all
    show ?thesis using wf fl wc wl reuse e(2,3,4) unfolding e(1) by (auto simp: extends_def)
  next
    case insert
    with pl have e: "fin = length (nodes s)" "s1 = snd (insert_after node ft s)"
      using insert_after_fst[of node ft s] by (simp_all add: prod_eq_iff)
    have "extends s s1" unfolding e extends_def
      by (simp add: insert_after_length insert_after_old_time insert_after_vecs
            insert_after_starts insert_after_finish_nodes)
    moreover have "wf_lists n (nodes s1) (starts s1) (finish_nodes s1)"
      using place_insert_props(3)[OF wf fl wc wl node, of ft]
      unfolding e by (simp add: insert_after_starts insert_after_finish_nodes)
    moreover have "vecs s1 ! capacity (nodes s ! node) = vecs s ! capacity (nodes s ! node)"
      using cb unfolding e by (simp add: insert_after_vecs nth_append)
    ultimately show ?thesis
      using place_insert_props(1,2)[OF wf fl wc wl node, of ft] node cl
      unfolding e
      by (simp add: insert_after_old_nxt insert_after_length insert_after_new_time
            insert_after_old_capacity)
  qed
  from all show "\<exists>ps1. wf_links (nodes s1) ps1 \<and> full_last capv (vecs s1) (nodes s1) ps1"
    and "wf_caps n0 (vecs s1) (nodes s1)"
    and "wf_lists n (nodes s1) (starts s1) (finish_nodes s1)"
    and "nxt (nodes s1 ! node) = Some fin" and "fin \<noteq> node" and "fin < length (nodes s1)"
    and "time (nodes s1 ! fin) = ft" and "extends s s1"
    and "capacity (nodes s1 ! node) = capacity (nodes s ! node)"
    and "vecs s1 ! capacity (nodes s ! node) = vecs s ! capacity (nodes s ! node)"
    by blast+
qed

lemma pred_loop_valid:
  "wf_lists n (nodes s) (starts s) (finish_nodes s) \<Longrightarrow> start < length (nodes s) \<Longrightarrow>
   pred_loop s ps start = Inr st \<Longrightarrow> st < length (nodes s)"
proof (induction ps arbitrary: start)
  case Nil
  then show ?case by simp
next
  case (Cons p ps)
  from Cons.prems(3) have p: "p < length (finish_nodes s)"
    by (simp split: if_splits)
  with Cons.prems(3) obtain f where f: "finish_nodes s ! p = Some f"
    and rest: "pred_loop s ps (if time (nodes s ! f) > time (nodes s ! start) then f else start) = Inr st"
    by (auto split: option.splits)
  from Cons.prems(1) p f have "f < length (nodes s)" by (simp add: wf_lists_def)
  with Cons.prems(2) have "(if time (nodes s ! f) > time (nodes s ! start) then f else start) < length (nodes s)"
    by simp
  from Cons.IH[OF Cons.prems(1) this rest] show ?case .
qed

lemma consume_inv:
  assumes wf: "wf_links (nodes s) ps" and fl: "full_last capv (vecs s) (nodes s) ps"
    and wc: "wf_caps n0 (vecs s) (nodes s)" and node: "node < length (nodes s)"
    and nx: "nxt (nodes s ! node) = Some fin"
    and len: "length v = length (vecs s ! capacity (nodes s ! node))"
  shows "full_last capv ((vecs s)[capacity (nodes s ! node) := v]) (nodes s) ps"
    and "wf_caps n0 ((vecs s)[capacity (nodes s ! node) := v]) (nodes s)"
    and "take n0 ((vecs s)[capacity (nodes s ! node) := v]) = take n0 (vecs s)"
proof -
  let ?c = "capacity (nodes s ! node)"
  have inj: "\<And>a. a < length (nodes s) \<Longrightarrow> capacity (nodes s ! a) = ?c \<Longrightarrow> a = node"
    using wc node by (simp add: wf_caps_def)
  have cb: "n0 \<le> ?c" "?c < length (vecs s)" using wc node by (simp_all add: wf_caps_def)
  have l: "last ps < length (nodes s)" "nxt (nodes s ! last ps) = None"
    using wf_links_last[OF wf] by simp_all
  with nx have "last ps \<noteq> node" by auto
  with inj[OF l(1)] have "capacity (nodes s ! last ps) \<noteq> ?c" by blast
  then have lastv: "(vecs s)[?c := v] ! capacity (nodes s ! last ps) = capv"
    using fl by (simp add: full_last_def)
  have "\<And>a. a < length (nodes s) \<Longrightarrow> length ((vecs s)[?c := v] ! capacity (nodes s ! a)) = length capv"
  proof -
    fix a assume a: "a < length (nodes s)"
    from fl a have la: "length (vecs s ! capacity (nodes s ! a)) = length capv"
      by (simp add: full_last_def)
    from fl node have ln: "length (vecs s ! ?c) = length capv"
      by (simp add: full_last_def)
    show "length ((vecs s)[?c := v] ! capacity (nodes s ! a)) = length capv"
    proof (cases "capacity (nodes s ! a) = ?c")
      case True
      with cb(2) len ln show ?thesis by simp
    next
      case False
      with la show ?thesis by simp
    qed
  qed
  with lastv show "full_last capv ((vecs s)[?c := v]) (nodes s) ps" by (simp add: full_last_def)
  from wc show "wf_caps n0 ((vecs s)[?c := v]) (nodes s)" by (simp add: wf_caps_def)
  from cb(1) show "take n0 ((vecs s)[?c := v]) = take n0 (vecs s)" by simp
qed

lemma decode_body_normal:
  assumes inv: "decoder_inv capv n0 n s"
    and eq: "decode_body duration predecessors demands i s = Some (None, s')"
    and n: "length duration = n"
  shows "decoder_inv capv n0 n s'" and "take n0 (vecs s') = take n0 (vecs s)"
    and "length (nodes s) \<le> length (nodes s')"
    and "\<forall>a<length (nodes s). time (nodes s' ! a) = time (nodes s ! a)"
    and "i < n"
    and "\<exists>f. finish_nodes s' ! i = Some f \<and> f < length (nodes s') \<and>
             time (nodes s' ! f) = starts s' ! i + duration ! i"
    and "\<forall>j. j \<noteq> i \<longrightarrow> finish_nodes s' ! j = finish_nodes s ! j \<and> starts s' ! j = starts s ! j"
proof -
  from inv obtain ps where wf: "wf_links (nodes s) ps" and fl: "full_last capv (vecs s) (nodes s) ps"
    and wc: "wf_caps n0 (vecs s) (nodes s)" and wl: "wf_lists n (nodes s) (starts s) (finish_nodes s)"
    by (auto simp: decoder_inv_def)
  from eq obtain start0 node start ft fin s1 s2 where
    i: "i < length duration"
    and pr: "pred_loop s (predecessors ! i) 0 = Inr start0"
    and se: "search_loop s (demands ! i) (duration ! i) start0 start0
       (time (nodes s ! start0) + duration ! i) = Some (Inr (node, start, ft))"
    and pl: "place node ft s = (fin, s1)"
    and co: "consume_loop (demands ! i) fin (Some start) s1 = Some (None, s2)"
    and s': "s' = s2\<lparr>starts := (starts s2)[i := time (nodes s2 ! start)],
              finish_nodes := (finish_nodes s2)[i := Some fin]\<rparr>"
    by (rule decode_body_normalE)
  have cl: "closed (nodes s)" using wf by (rule wf_links_closed)
  have "0 < length (nodes s)" using wf_links_nonempty[OF wf] by blast
  from pred_loop_valid[OF wl this pr] have st0: "start0 < length (nodes s)" .
  from search_loop_post[OF se] cl st0
  have node: "node < length (nodes s)" and start: "start = node"
    and ft: "ft = time (nodes s ! node) + duration ! i"
    by (simp_all add: search_post_def)
  note P = place_props[OF wf fl wc wl node pl]
  from P(1) obtain ps1 where wf1: "wf_links (nodes s1) ps1"
    and fl1: "full_last capv (vecs s1) (nodes s1) ps1" by blast
  from P(8) have ext: "length (nodes s) \<le> length (nodes s1)"
    "\<And>a. a < length (nodes s) \<Longrightarrow> time (nodes s1 ! a) = time (nodes s ! a)"
    "take (length (vecs s)) (vecs s1) = vecs s" "starts s1 = starts s"
    "finish_nodes s1 = finish_nodes s"
    by (simp_all add: extends_def)
  have node1: "node < length (nodes s1)" using node ext(1) by simp
  let ?c = "capacity (nodes s1 ! node)"
  let ?cr = "consume (vecs s1 ! ?c) (vecs s1 ! (demands ! i))"
  from consume_loop_once[OF P(5)[symmetric] P(4), of "demands ! i"] co start
  have cr: "fst ?cr = None" and s2: "s2 = s1\<lparr>vecs := (vecs s1)[?c := snd ?cr]\<rparr>"
    by simp_all
  from consume_length[OF cr] have lv: "length (snd ?cr) = length (vecs s1 ! ?c)" .
  note C = consume_inv[OF wf1 fl1 P(2) node1 P(4) lv]
  have nodes': "nodes s' = nodes s1" and vecs': "vecs s' = (vecs s1)[?c := snd ?cr]"
    and starts': "starts s' = (starts s)[i := time (nodes s1 ! node)]"
    and fins': "finish_nodes s' = (finish_nodes s)[i := Some fin]"
    by (simp_all add: s' s2 start ext)
  have li: "i < length (starts s)" "i < length (finish_nodes s)"
    using wl i n by (simp_all add: wf_lists_def)
  have wl': "wf_lists n (nodes s1) (starts s') (finish_nodes s')"
    using P(3) P(6) li unfolding starts' fins' ext(4,5) wf_lists_def
    by (auto simp: nth_list_update split: if_splits)
  show "decoder_inv capv n0 n s'"
    unfolding decoder_inv_def nodes' vecs' using wf1 C(1,2) wl' by blast
  have "n0 \<le> length (vecs s)" using wc node by (force simp: wf_caps_def)
  then have "take n0 (vecs s1) = take n0 (vecs s)"
    using ext(3) by (metis min.absorb1 take_take)
  with C(3) show "take n0 (vecs s') = take n0 (vecs s)" by (simp add: vecs')
  show "length (nodes s) \<le> length (nodes s')" using ext(1) by (simp add: nodes')
  show "\<forall>a<length (nodes s). time (nodes s' ! a) = time (nodes s ! a)"
    using ext(2) by (simp add: nodes')
  from i n show "i < n" by simp
  show "\<exists>f. finish_nodes s' ! i = Some f \<and> f < length (nodes s') \<and>
             time (nodes s' ! f) = starts s' ! i + duration ! i"
    using li P(6,7) ext(2)[OF node] ft by (simp add: fins' starts' nodes')
  show "\<forall>j. j \<noteq> i \<longrightarrow> finish_nodes s' ! j = finish_nodes s ! j \<and> starts s' ! j = starts s ! j"
    by (simp add: fins' starts')
qed

lemma decode_body_raisedE:
  assumes "decode_body duration predecessors demands i s = Some (Some e, s')"
  obtains (early) "s' = s"
  | (late) start0 node start ft fin s1 where
    "pred_loop s (predecessors ! i) 0 = Inr start0"
    "search_loop s (demands ! i) (duration ! i) start0 start0
       (time (nodes s ! start0) + duration ! i) = Some (Inr (node, start, ft))"
    "place node ft s = (fin, s1)"
    "consume_loop (demands ! i) fin (Some start) s1 = Some (Some e, s')"
  using assms unfolding decode_body_def place_def
  by (auto simp: Let_def split: if_splits sum.splits option.splits prod.splits)

lemma decode_body_raised:
  assumes inv: "decoder_inv capv n0 n s"
    and eq: "decode_body duration predecessors demands i s = Some (Some e, s')"
  shows "take n0 (vecs s') = take n0 (vecs s)"
  using eq
proof (cases rule: decode_body_raisedE)
  case early
  then show ?thesis by simp
next
  case (late start0 node start ft fin s1)
  from inv obtain ps where wf: "wf_links (nodes s) ps" and fl: "full_last capv (vecs s) (nodes s) ps"
    and wc: "wf_caps n0 (vecs s) (nodes s)" and wl: "wf_lists n (nodes s) (starts s) (finish_nodes s)"
    by (auto simp: decoder_inv_def)
  have cl: "closed (nodes s)" using wf by (rule wf_links_closed)
  have "0 < length (nodes s)" using wf_links_nonempty[OF wf] by blast
  from pred_loop_valid[OF wl this late(1)] have st0: "start0 < length (nodes s)" .
  from search_loop_post[OF late(2)] cl st0
  have node: "node < length (nodes s)" and start: "start = node"
    by (simp_all add: search_post_def)
  note P = place_props[OF wf fl wc wl node late(3)]
  from P(8) have ext: "length (nodes s) \<le> length (nodes s1)"
    "take (length (vecs s)) (vecs s1) = vecs s"
    by (simp_all add: extends_def)
  have node1: "node < length (nodes s1)" using node ext(1) by simp
  let ?c = "capacity (nodes s1 ! node)"
  let ?cr = "consume (vecs s1 ! ?c) (vecs s1 ! (demands ! i))"
  from consume_loop_once[OF P(5)[symmetric] P(4), of "demands ! i"] late(4) start
  have s': "s' = s1\<lparr>vecs := (vecs s1)[?c := snd ?cr]\<rparr>"
    by simp
  have "n0 \<le> ?c" using P(2) node1 by (simp add: wf_caps_def)
  then have a: "take n0 (vecs s') = take n0 (vecs s1)" by (simp add: s')
  have "n0 \<le> length (vecs s)" using wc node by (force simp: wf_caps_def)
  then have "take n0 (vecs s1) = take n0 (vecs s)"
    using ext(2) by (metis min.absorb1 take_take)
  with a show ?thesis by simp
qed

lemma decode_init_inv:
  assumes "0 < length duration"
  shows "decoder_inv (vs ! cap) (length vs) (length duration)
           ((decode_init vs duration cap)
              \<lparr>finish_nodes := (finish_nodes (decode_init vs duration cap))[0 := Some 0]\<rparr>)"
  using assms
  by (auto simp: decoder_inv_def decode_init_def copy_def wf_links_def wf_caps_def wf_lists_def
        full_last_def nth_list_update intro!: exI[of _ "[0]"])

lemma decode_init_vecs: "take (length vs) (vecs (decode_init vs duration cap)) = vs"
  by (simp add: decode_init_def copy_def)

lemma decode_body_finish_recorded:
  assumes inv: "decoder_inv capv n0 (length duration) s"
    and eq: "decode_body duration predecessors demands j s = Some (None, s1)"
    and i: "i = j \<or> finish_recorded duration s i"
  shows "finish_recorded duration s1 i"
proof (cases "i = j")
  case True
  with decode_body_normal(6)[OF inv eq refl] show ?thesis
    by (auto simp: finish_recorded_def)
next
  case False
  with i have fr: "finish_recorded duration s i" by simp
  then obtain f where f: "finish_nodes s ! i = Some f" "f < length (nodes s)"
    "time (nodes s ! f) = starts s ! i + duration ! i"
    by (auto simp: finish_recorded_def split: option.splits)
  from decode_body_normal(7)[OF inv eq refl] False
  have same: "finish_nodes s1 ! i = finish_nodes s ! i" "starts s1 ! i = starts s ! i" by simp_all
  from decode_body_normal(3,4)[OF inv eq refl] f(2)
  have "f < length (nodes s1)" "time (nodes s1 ! f) = time (nodes s ! f)" by simp_all
  with same f show ?thesis by (simp add: finish_recorded_def)
qed

lemma decode_loop_inv:
  "decoder_inv capv n0 (length duration) s \<Longrightarrow>
   decode_loop duration predecessors demands alist s = Some (r, s') \<Longrightarrow>
   take n0 (vecs s') = take n0 (vecs s) \<and>
   (r = None \<longrightarrow> decoder_inv capv n0 (length duration) s' \<and>
      (\<forall>i. i \<in> set alist \<or> finish_recorded duration s i \<longrightarrow> finish_recorded duration s' i))"
proof (induction alist arbitrary: s)
  case Nil
  then show ?case by simp
next
  case (Cons j alist)
  show ?case
  proof (cases "decode_body duration predecessors demands j s")
    case None
    with Cons.prems(2) show ?thesis by simp
  next
    case (Some res)
    obtain e s1 where res: "res = (e, s1)" by (cases res)
    show ?thesis
    proof (cases e)
      case (Some x)
      with \<open>decode_body duration predecessors demands j s = Some res\<close> res Cons.prems(2)
      have "r = Some x" "s' = s1" and b: "decode_body duration predecessors demands j s = Some (Some x, s1)"
        by simp_all
      with decode_body_raised[OF Cons.prems(1) b] show ?thesis by simp
    next
      case None
      with \<open>decode_body duration predecessors demands j s = Some res\<close> res Cons.prems(2)
      have b: "decode_body duration predecessors demands j s = Some (None, s1)"
        and l: "decode_loop duration predecessors demands alist s1 = Some (r, s')"
        by simp_all
      note B = decode_body_normal[OF Cons.prems(1) b refl]
      from Cons.IH[OF B(1) l]
      have IH: "take n0 (vecs s') = take n0 (vecs s1)"
        "r = None \<Longrightarrow> decoder_inv capv n0 (length duration) s'"
        "\<And>i. r = None \<Longrightarrow> i \<in> set alist \<or> finish_recorded duration s1 i \<Longrightarrow> finish_recorded duration s' i"
        by blast+
      have "\<And>i. r = None \<Longrightarrow> i \<in> set (j # alist) \<or> finish_recorded duration s i \<Longrightarrow>
              finish_recorded duration s' i"
      proof -
        fix i assume r: "r = None" and i: "i \<in> set (j # alist) \<or> finish_recorded duration s i"
        show "finish_recorded duration s' i"
        proof (cases "i \<in> set alist")
          case True
          with IH(3)[OF r] show ?thesis by blast
        next
          case False
          with i have "i = j \<or> finish_recorded duration s i" by auto
          from decode_body_finish_recorded[OF Cons.prems(1) b this] IH(3)[OF r]
          show ?thesis by blast
        qed
      qed
      with IH(1,2) B(2) show ?thesis by auto
    qed
  qed
qed

section \<open>The decoder returns on well-formed inputs\<close>

lemma enough_total: "length d \<le> length c \<Longrightarrow> \<exists>b. enough c d = Inr b"
  by (induction c d rule: enough.induct) auto

lemma demand_within_Cons:
  "demand_within (d # ds) (c # cs) = (d \<le> c \<and> demand_within ds cs)"
proof
  assume a: "demand_within (d # ds) (c # cs)"
  then have l: "length ds \<le> length cs"
    and all: "\<And>j. j < Suc (length ds) \<Longrightarrow> (d # ds) ! j \<le> (c # cs) ! j"
    by (simp_all add: demand_within_def)
  from all[of 0] have "d \<le> c" by simp
  moreover have "\<And>j. j < length ds \<Longrightarrow> ds ! j \<le> cs ! j"
    using all[of "Suc j" for j] by simp
  ultimately show "d \<le> c \<and> demand_within ds cs" using l by (simp add: demand_within_def)
next
  assume a: "d \<le> c \<and> demand_within ds cs"
  then have "\<And>j. j < Suc (length ds) \<Longrightarrow> (d # ds) ! j \<le> (c # cs) ! j"
    by (simp add: demand_within_def nth_Cons split: nat.splits)
  with a show "demand_within (d # ds) (c # cs)" by (simp add: demand_within_def)
qed

lemma enough_within: "demand_within d c \<Longrightarrow> enough c d = Inr True"
proof (induction c d rule: enough.induct)
  case (1 cap)
  then show ?case by simp
next
  case (2 d ds)
  then show ?case by (simp add: demand_within_def)
next
  case (3 c cs d ds)
  then show ?case by (simp add: demand_within_Cons)
qed

lemma search_loop_total:
  assumes "links (nodes s) (Some node) ys None"
    and "\<And>a. a \<in> set ys \<Longrightarrow> \<exists>b. enough (vecs s ! capacity (nodes s ! a)) (vecs s ! dem) = Inr b"
    and "enough (vecs s ! capacity (nodes s ! last ys)) (vecs s ! dem) = Inr True"
  shows "\<exists>y. search_loop s dem d node start ft = Some (Inr y)"
  using assms
proof (induction ys arbitrary: node start ft)
  case Nil
  then show ?case by simp
next
  case (Cons a as)
  from Cons.prems(1) have na: "node = a" and l: "links (nodes s) (nxt (nodes s ! a)) as None"
    by simp_all
  from Cons.prems(2)[of a] obtain b where b: "enough (vecs s ! capacity (nodes s ! a)) (vecs s ! dem) = Inr b"
    by auto
  show ?case
  proof (cases b)
    case True
    with b na show ?thesis by (subst search_loop.simps) simp
  next
    case False
    show ?thesis
    proof (cases as)
      case Nil
      with Cons.prems(3) b False show ?thesis by simp
    next
      case (Cons a' as')
      with l have nx: "nxt (nodes s ! a) = Some a'" and l': "links (nodes s) (Some a') as None"
        by simp_all
      have "\<exists>y. search_loop s dem d a' a' (time (nodes s ! a') + d) = Some (Inr y)"
      proof (rule Cons.IH[OF l'])
        fix x assume "x \<in> set as"
        then show "\<exists>b. enough (vecs s ! capacity (nodes s ! x)) (vecs s ! dem) = Inr b"
          using Cons.prems(2)[of x] by simp
      next
        show "enough (vecs s ! capacity (nodes s ! last as)) (vecs s ! dem) = Inr True"
          using Cons.prems(3) Cons by simp
      qed
      with b False nx na show ?thesis by (subst search_loop.simps) simp
    qed
  qed
qed

lemma pred_loop_total:
  "(\<And>p. p \<in> set ps \<Longrightarrow> p < length (finish_nodes s) \<and> finish_nodes s ! p \<noteq> None) \<Longrightarrow>
   \<exists>st. pred_loop s ps start = Inr st"
proof (induction ps arbitrary: start)
  case Nil
  then show ?case by simp
next
  case (Cons p ps)
  from Cons.prems[of p] obtain f where p: "p < length (finish_nodes s)" and f: "finish_nodes s ! p = Some f"
    by auto
  have "\<exists>st. pred_loop s ps (if time (nodes s ! f) > time (nodes s ! start) then f else start) = Inr st"
    by (rule Cons.IH) (simp add: Cons.prems)
  with p f show ?case by simp
qed

lemma decode_body_place:
  "decode_body duration predecessors demands i s =
     (if i \<ge> length predecessors then Some (Some IndexError, s)
      else case pred_loop s (predecessors ! i) 0 of
        Inl e \<Rightarrow> Some (Some e, s)
      | Inr start0 \<Rightarrow>
          if i \<ge> length duration then Some (Some IndexError, s)
          else if i \<ge> length demands then Some (Some IndexError, s)
          else
            (case search_loop s (demands ! i) (duration ! i)
                    start0 start0 (time (nodes s ! start0) + duration ! i) of
               None \<Rightarrow> None
             | Some (Inl e) \<Rightarrow> Some (Some e, s)
             | Some (Inr (node, start, finish_time)) \<Rightarrow>
                 (case place node finish_time s of (finish_node, s1) \<Rightarrow>
                    (case consume_loop (demands ! i) finish_node (Some start) s1 of
                       None \<Rightarrow> None
                     | Some (Some e, s2) \<Rightarrow> Some (Some e, s2)
                     | Some (None, s2) \<Rightarrow>
                         Some (None, s2\<lparr>starts := (starts s2)[i := time (nodes s2 ! start)],
                                        finish_nodes := (finish_nodes s2)[i := Some finish_node]\<rparr>)))))"
  unfolding decode_body_def place_def
  by (simp add: Let_def split: sum.splits option.splits prod.splits)

lemma decode_body_progress:
  assumes inv: "decoder_inv capv n0 n s"
    and n: "length duration = n" "length predecessors = n" "length demands = n"
    and i: "i < n"
    and preds: "\<And>p. p \<in> set (predecessors ! i) \<Longrightarrow> p < n \<and> finish_nodes s ! p \<noteq> None"
    and dref: "demands ! i < n0"
    and dw: "demand_within (vecs s ! (demands ! i)) capv"
  shows "\<exists>s'. decode_body duration predecessors demands i s = Some (None, s')"
proof -
  let ?dem = "demands ! i"
  from inv obtain ps where wf: "wf_links (nodes s) ps" and fl: "full_last capv (vecs s) (nodes s) ps"
    and wc: "wf_caps n0 (vecs s) (nodes s)" and wl: "wf_lists n (nodes s) (starts s) (finish_nodes s)"
    by (auto simp: decoder_inv_def)
  have cl: "closed (nodes s)" using wf by (rule wf_links_closed)
  have z: "0 < length (nodes s)" using wf_links_nonempty[OF wf] by blast
  have lf: "length (finish_nodes s) = n" using wl by (simp add: wf_lists_def)
  have "\<exists>st. pred_loop s (predecessors ! i) 0 = Inr st"
    by (rule pred_loop_total) (simp add: preds lf)
  then obtain start0 where pr: "pred_loop s (predecessors ! i) 0 = Inr start0" by blast
  from pred_loop_valid[OF wl z pr] have st0: "start0 < length (nodes s)" .
  from wf st0 obtain xs ys where ps: "ps = xs @ start0 # ys"
    and ly: "links (nodes s) (nxt (nodes s ! start0)) ys None"
    by (rule wf_links_split)
  have lk: "links (nodes s) (Some start0) (start0 # ys) None" using ly by simp
  have lens: "\<And>a. a < length (nodes s) \<Longrightarrow> length (vecs s ! capacity (nodes s ! a)) = length capv"
    using fl by (simp add: full_last_def)
  have ld: "length (vecs s ! ?dem) \<le> length capv" using dw by (simp add: demand_within_def)
  have sub: "\<And>a. a \<in> set (start0 # ys) \<Longrightarrow> a < length (nodes s)"
  proof -
    fix a assume "a \<in> set (start0 # ys)"
    then have "a \<in> set ps" by (auto simp: ps)
    with wf show "a < length (nodes s)" by (simp add: wf_links_def)
  qed
  have noerr: "\<And>a. a \<in> set (start0 # ys) \<Longrightarrow>
                 \<exists>b. enough (vecs s ! capacity (nodes s ! a)) (vecs s ! ?dem) = Inr b"
    using lens[OF sub] ld by (simp add: enough_total)
  have "last (start0 # ys) = last ps" by (simp add: ps)
  then have lastok: "enough (vecs s ! capacity (nodes s ! last (start0 # ys))) (vecs s ! ?dem) = Inr True"
    using fl dw by (simp add: full_last_def enough_within)
  from search_loop_total[OF lk noerr lastok, of "duration ! i" start0 "time (nodes s ! start0) + duration ! i"]
  obtain y where se0: "search_loop s ?dem (duration ! i) start0 start0
       (time (nodes s ! start0) + duration ! i) = Some (Inr y)" by blast
  obtain node start ft where y: "y = (node, start, ft)" by (cases y)
  note se = se0[unfolded y]
  from search_loop_post[OF se] cl st0
  have node: "node < length (nodes s)" and start: "start = node"
    and en: "enough (vecs s ! capacity (nodes s ! node)) (vecs s ! ?dem) = Inr True"
    by (simp_all add: search_post_def)
  obtain fin s1 where pl: "place node ft s = (fin, s1)" by (cases "place node ft s")
  note P = place_props[OF wf fl wc wl node pl]
  from P(8) have ext: "take (length (vecs s)) (vecs s1) = vecs s" by (simp add: extends_def)
  have "n0 \<le> length (vecs s)" using wc node by (force simp: wf_caps_def)
  with dref have dl: "?dem < length (vecs s)" by simp
  have "vecs s ! ?dem = take (length (vecs s)) (vecs s1) ! ?dem" by (simp only: ext)
  also have "\<dots> = vecs s1 ! ?dem" using dl by simp
  finally have dv: "vecs s1 ! ?dem = vecs s ! ?dem" by simp
  have cv: "vecs s1 ! capacity (nodes s1 ! node) = vecs s ! capacity (nodes s ! node)"
    using P(9,10) by simp
  from enough_length[OF en] have "fst (consume (vecs s ! capacity (nodes s ! node)) (vecs s ! ?dem)) = None"
    by (rule consume_ok)
  with consume_loop_once[OF P(5)[symmetric] P(4), of ?dem] cv dv
  obtain s2 where co: "consume_loop ?dem fin (Some node) s1 = Some (None, s2)" by simp
  from i n pr se pl co start show ?thesis
    by (simp add: decode_body_place)
qed

lemma decodable_cong:
  "length fns' = length fns \<Longrightarrow> (\<And>p. p < length fns \<Longrightarrow> (fns' ! p = None) = (fns ! p = None)) \<Longrightarrow>
   decodable predecessors fns' alist = decodable predecessors fns alist"
proof (induction alist arbitrary: fns fns')
  case Nil
  then show ?case by simp
next
  case (Cons i alist)
  have "decodable predecessors (fns'[i := Some 0]) alist = decodable predecessors (fns[i := Some 0]) alist"
  proof (rule Cons.IH)
    show "length (fns'[i := Some 0]) = length (fns[i := Some 0])" using Cons.prems(1) by simp
    fix p assume "p < length (fns[i := Some 0])"
    then have p: "p < length fns" by simp
    show "(fns'[i := Some 0] ! p = None) = (fns[i := Some 0] ! p = None)"
      using Cons.prems(1) Cons.prems(2)[OF p] p by (cases "p = i") simp_all
  qed
  moreover have "(\<forall>p\<in>set (predecessors ! i). p < length fns' \<and> fns' ! p \<noteq> None)
       = (\<forall>p\<in>set (predecessors ! i). p < length fns \<and> fns ! p \<noteq> None)"
    using Cons.prems(2) unfolding Cons.prems(1) by blast
  ultimately show ?case by simp
qed

lemma topological_decodable:
  assumes "topological predecessors alist" and "\<forall>i\<in>set alist. i < n"
  shows "decodable predecessors ((replicate n None)[0 := Some 0]) alist"
proof -
  have "\<And>fns. length fns = n \<Longrightarrow>
          (\<forall>k<length alist. \<forall>p\<in>set (predecessors ! (alist ! k)).
              p \<in> set (take k alist) \<or> (p < n \<and> fns ! p \<noteq> None)) \<Longrightarrow>
          \<forall>i\<in>set alist. i < n \<Longrightarrow> decodable predecessors fns alist"
  proof (induction alist)
    case Nil
    then show ?case by simp
  next
    case (Cons i alist)
    from Cons.prems(2) have h: "\<And>k p. k < Suc (length alist) \<Longrightarrow> p \<in> set (predecessors ! ((i # alist) ! k)) \<Longrightarrow>
          p \<in> set (take k (i # alist)) \<or> (p < n \<and> fns ! p \<noteq> None)" by simp
    have now: "\<forall>p\<in>set (predecessors ! i). p < length fns \<and> fns ! p \<noteq> None"
      using h[of 0] Cons.prems(1) by simp
    have i: "i < n" using Cons.prems(3) by simp
    have "decodable predecessors (fns[i := Some 0]) alist"
    proof (rule Cons.IH)
      show "length (fns[i := Some 0]) = n" using Cons.prems(1) by simp
      show "\<forall>i\<in>set alist. i < n" using Cons.prems(3) by simp
      show "\<forall>k<length alist. \<forall>p\<in>set (predecessors ! (alist ! k)).
              p \<in> set (take k alist) \<or> (p < n \<and> fns[i := Some 0] ! p \<noteq> None)"
      proof (intro allI impI ballI)
        fix k p assume k: "k < length alist" and p: "p \<in> set (predecessors ! (alist ! k))"
        from h[of "Suc k" p] k p
        have "p = i \<or> p \<in> set (take k alist) \<or> (p < n \<and> fns ! p \<noteq> None)" by auto
        then show "p \<in> set (take k alist) \<or> (p < n \<and> fns[i := Some 0] ! p \<noteq> None)"
          using i Cons.prems(1) by (auto simp: nth_list_update)
      qed
    qed
    with now show ?case by simp
  qed
  from this[of "(replicate n None)[0 := Some 0]"] assms show ?thesis
    by (simp add: topological_def)
qed

lemma decode_loop_progress:
  "decoder_inv capv n0 n s \<Longrightarrow> length duration = n \<Longrightarrow> length predecessors = n \<Longrightarrow>
   length demands = n \<Longrightarrow> take n0 (vecs s) = vs \<Longrightarrow> length vs = n0 \<Longrightarrow>
   (\<And>i. i \<in> set alist \<Longrightarrow> i < n \<and> demands ! i < n0 \<and> demand_within (vs ! (demands ! i)) capv) \<Longrightarrow>
   decodable predecessors (finish_nodes s) alist \<Longrightarrow>
   \<exists>s'. decode_loop duration predecessors demands alist s = Some (None, s')"
proof (induction alist arbitrary: s)
  case Nil
  then show ?case by simp
next
  case (Cons i alist)
  note inv = Cons.prems(1) and n = Cons.prems(2,3,4)
  from Cons.prems(7)[of i] have i: "i < n" and dref: "demands ! i < n0"
    and dw0: "demand_within (vs ! (demands ! i)) capv" by simp_all
  have lf: "length (finish_nodes s) = n" using inv by (simp add: decoder_inv_def wf_lists_def)
  have "vs ! (demands ! i) = take n0 (vecs s) ! (demands ! i)" by (simp only: Cons.prems(5))
  also have "\<dots> = vecs s ! (demands ! i)" using dref by simp
  finally have dw: "demand_within (vecs s ! (demands ! i)) capv" using dw0 by simp
  have preds: "\<And>p. p \<in> set (predecessors ! i) \<Longrightarrow> p < n \<and> finish_nodes s ! p \<noteq> None"
    using Cons.prems(8) lf by simp
  from decode_body_progress[OF inv n i preds dref dw]
  obtain s1 where b: "decode_body duration predecessors demands i s = Some (None, s1)" by blast
  note B = decode_body_normal[OF inv b n(1)]
  have lf1: "length (finish_nodes s1) = n" using B(1) by (simp add: decoder_inv_def wf_lists_def)
  have dc: "decodable predecessors (finish_nodes s1) alist
              = decodable predecessors ((finish_nodes s)[i := Some 0]) alist"
  proof (rule decodable_cong)
    show "length (finish_nodes s1) = length ((finish_nodes s)[i := Some 0])" using lf lf1 by simp
    fix p assume "p < length ((finish_nodes s)[i := Some 0])"
    then have p: "p < length (finish_nodes s)" by simp
    show "(finish_nodes s1 ! p = None) = ((finish_nodes s)[i := Some 0] ! p = None)"
    proof (cases "p = i")
      case True
      with B(6) p show ?thesis by auto
    next
      case False
      with B(7) show ?thesis by simp
    qed
  qed
  have "\<exists>s'. decode_loop duration predecessors demands alist s1 = Some (None, s')"
  proof (rule Cons.IH[OF B(1) n])
    show "take n0 (vecs s1) = vs" using B(2) Cons.prems(5) by simp
    show "length vs = n0" by (rule Cons.prems(6))
    show "decodable predecessors (finish_nodes s1) alist" using Cons.prems(8) dc by simp
    fix j assume "j \<in> set alist"
    then show "j < n \<and> demands ! j < n0 \<and> demand_within (vs ! (demands ! j)) capv"
      using Cons.prems(7)[of j] by simp
  qed
  with b show ?case by simp
qed

text \<open>
  Claim C4: \<^verbatim>\<open>decode\<close> returns a start-time vector (it neither loops nor raises)
  for every activity list in topological order over existing activities whose demands are
  component-wise within the capacity. The capacity search always ends: the last breakpoint
  in link order always holds the full capacity.
\<close>

theorem decode_returns:
  assumes "0 < length duration"
    and "length predecessors = length duration" and "length demands = length duration"
    and "cap < length vs" and "\<forall>d\<in>set demands. d < length vs"
    and "\<forall>i\<in>set alist. i < length duration"
    and "topological predecessors alist"
    and "\<forall>i\<in>set alist. demand_within (vs ! (demands ! i)) (vs ! cap)"
  shows "\<exists>st vs'. decode vs alist duration predecessors demands cap = Some (Inr st, vs')
           \<and> length st = length duration"
proof -
  let ?n = "length duration"
  let ?s0 = "(decode_init vs duration cap)
              \<lparr>finish_nodes := (finish_nodes (decode_init vs duration cap))[0 := Some 0]\<rparr>"
  have inv0: "decoder_inv (vs ! cap) (length vs) ?n ?s0" using assms(1) by (rule decode_init_inv)
  have fn0: "finish_nodes ?s0 = (replicate ?n None)[0 := Some 0]"
    by (simp add: decode_init_def copy_def)
  have "\<exists>s'. decode_loop duration predecessors demands alist ?s0 = Some (None, s')"
  proof (rule decode_loop_progress[OF inv0 refl assms(2,3) _ refl])
    show "take (length vs) (vecs ?s0) = vs" by (simp add: decode_init_vecs)
    show "decodable predecessors (finish_nodes ?s0) alist"
      unfolding fn0 using assms(7,6) by (rule topological_decodable)
    fix i assume i: "i \<in> set alist"
    with assms(6) have "i < ?n" by simp
    moreover from this assms(3,5) have "demands ! i < length vs" by simp
    ultimately show "i < ?n \<and> demands ! i < length vs \<and> demand_within (vs ! (demands ! i)) (vs ! cap)"
      using assms(8) i by simp
  qed
  then obtain s' where l: "decode_loop duration predecessors demands alist ?s0 = Some (None, s')"
    by blast
  from decode_loop_inv[OF inv0 l] have "length (starts s') = ?n"
    by (simp add: decoder_inv_def wf_lists_def)
  moreover from l assms(1) have "decode vs alist duration predecessors demands cap
      = Some (Inr (starts s'), vecs s')"
    by (simp add: decode_def decode_run_def Let_def)
  ultimately show ?thesis by blast
qed

theorem decode_returns_witness:
  "\<exists>st vs'. decode [[1], [0], [0], [1], [1], [0]] [0, 1, 2, 3, 4] [1, 2, 5, 5, 1]
          [[], [0], [1], [0], [2, 3]] [1, 2, 3, 4, 5] 0 = Some (Inr st, vs')
          \<and> length st = length [1, 2, 5, 5, 1 :: int]"
proof -
  have h1: "0 < length [1, 2, 5, 5, 1 :: int]" by simp
  have h2: "length [[], [0], [1], [0], [2, 3 :: nat]] = length [1, 2, 5, 5, 1 :: int]" by simp
  have h3: "length [1, 2, 3, 4, 5 :: nat] = length [1, 2, 5, 5, 1 :: int]" by simp
  have h4: "(0 :: nat) < length [[1], [0], [0], [1], [1], [0 :: int]]" by simp
  have h5: "\<forall>d\<in>set [1, 2, 3, 4, 5 :: nat]. d < length [[1], [0], [0], [1], [1], [0 :: int]]" by simp
  have h6: "\<forall>i\<in>set [0, 1, 2, 3, 4 :: nat]. i < length [1, 2, 5, 5, 1 :: int]" by simp
  have h7: "topological [[], [0], [1], [0], [2, 3]] [0, 1, 2, 3, 4]" by code_simp
  have h8: "\<forall>i\<in>set [0, 1, 2, 3, 4 :: nat].
         demand_within ([[1], [0], [0], [1], [1], [0]] ! ([1, 2, 3, 4, 5] ! i))
           ([[1], [0], [0], [1], [1], [0]] ! 0)" by code_simp
  from decode_returns[OF h1 h2 h3 h4 h5 h6 h7 h8] show ?thesis .
qed

section \<open>The decoder: frame and finish nodes\<close>

lemma decode_run_frame:
  assumes "decode_run vs alist duration predecessors demands cap = Some (r, s)"
  shows "take (length vs) (vecs s) = vs"
proof (cases "length duration = 0")
  case True
  with assms show ?thesis by (auto simp: decode_run_def Let_def decode_init_vecs)
next
  case False
  let ?s0 = "(decode_init vs duration cap)
              \<lparr>finish_nodes := (finish_nodes (decode_init vs duration cap))[0 := Some 0]\<rparr>"
  from False have "decoder_inv (vs ! cap) (length vs) (length duration) ?s0"
    by (simp add: decode_init_inv)
  moreover from False assms have "decode_loop duration predecessors demands alist ?s0 = Some (r, s)"
    by (simp add: decode_run_def Let_def)
  ultimately have "take (length vs) (vecs s) = take (length vs) (vecs ?s0)"
    using decode_loop_inv by blast
  then show ?thesis by (simp add: decode_init_vecs)
qed

text \<open>
  Claim C10: \<^verbatim>\<open>decode\<close> never mutates its inputs. For every call that comes back, with
  a result or with an exception, every vector object that existed before the call (the
  capacity vector, the demand vectors and any other list in the store) has the contents it
  had before: the store after the call is the store before the call followed by the
  vectors the call allocated (the copies owned by the breakpoints). The lists
  \<open>duration\<close> and \<open>predecessors\<close> are only read; in the model they are values that
  no step writes to.
\<close>

theorem decode_keeps_inputs:
  assumes "decode vs alist duration predecessors demands cap = Some (r, vs')"
  shows "take (length vs) vs' = vs"
proof -
  from assms obtain e s where "decode_run vs alist duration predecessors demands cap = Some (e, s)"
    and "vs' = vecs s"
    by (auto simp: decode_def split: option.splits prod.splits)
  then show ?thesis using decode_run_frame by simp
qed

theorem decode_keeps_inputs_witness:
  "decode [[1], [0], [0], [1], [1], [0]] [0, 1, 2, 3, 4] [1, 2, 5, 5, 1]
          [[], [0], [1], [0], [2, 3]] [1, 2, 3, 4, 5] 0
     = Some (Inr [0, 1, 3, 1, 8],
             [[1], [0], [0], [1], [1], [0], [1], [0], [0], [1], [1], [1]])
   \<and> take (length [[1], [0], [0], [1], [1], [0 :: int]])
        [[1], [0], [0], [1], [1], [0], [1], [0], [0], [1], [1], [1]]
     = [[1], [0], [0], [1], [1], [0 :: int]]"
proof -
  have e: "decode [[1], [0], [0], [1], [1], [0]] [0, 1, 2, 3, 4] [1, 2, 5, 5, 1]
          [[], [0], [1], [0], [2, 3]] [1, 2, 3, 4, 5] 0
     = Some (Inr [0, 1, 3, 1, 8],
             [[1], [0], [0], [1], [1], [0], [1], [0], [0], [1], [1], [1]])"
    by code_simp
  from decode_keeps_inputs[OF e] e show ?thesis by blast
qed

text \<open>
  Claim C9: after a run of \<^verbatim>\<open>decode\<close> over any list of activities (hence after each
  prefix of an activity list), the breakpoint recorded in \<^verbatim>\<open>finish_nodes[i]\<close> for a
  processed activity \<open>i\<close> has the time \<open>starts[i] + duration[i]\<close>.
\<close>

theorem finish_node_time:
  assumes "decode_run vs alist duration predecessors demands cap = Some (None, s)"
    and "i \<in> set alist"
  shows "\<exists>f. finish_nodes s ! i = Some f \<and> f < length (nodes s) \<and>
             time (nodes s ! f) = starts s ! i + duration ! i"
proof -
  have ne: "length duration \<noteq> 0"
    using assms(1) by (auto simp: decode_run_def Let_def)
  let ?s0 = "(decode_init vs duration cap)
              \<lparr>finish_nodes := (finish_nodes (decode_init vs duration cap))[0 := Some 0]\<rparr>"
  from ne have "decoder_inv (vs ! cap) (length vs) (length duration) ?s0"
    by (simp add: decode_init_inv)
  moreover from ne assms(1) have "decode_loop duration predecessors demands alist ?s0 = Some (None, s)"
    by (simp add: decode_run_def Let_def)
  ultimately have "finish_recorded duration s i"
    using decode_loop_inv assms(2) by blast
  then show ?thesis by (auto simp: finish_recorded_def split: option.splits)
qed

theorem finish_node_time_witness:
  "\<exists>s f. decode_run [[1], [0], [0], [1], [1], [0]] [0, 1, 2, 3, 4] [1, 2, 5, 5, 1]
            [[], [0], [1], [0], [2, 3]] [1, 2, 3, 4, 5] 0 = Some (None, s)
     \<and> (3 :: nat) \<in> set [0, 1, 2, 3, 4]
     \<and> finish_nodes s ! 3 = Some f \<and> f < length (nodes s)
     \<and> time (nodes s ! f) = starts s ! 3 + [1, 2, 5, 5, 1] ! 3"
proof -
  have "case decode_run [[1], [0], [0], [1], [1], [0]] [0, 1, 2, 3, 4] [1, 2, 5, 5, 1]
            [[], [0], [1], [0], [2, 3]] [1, 2, 3, 4, 5] 0 of
          Some (None, s) \<Rightarrow> True | _ \<Rightarrow> False"
    by code_simp
  then obtain s where e: "decode_run [[1], [0], [0], [1], [1], [0]] [0, 1, 2, 3, 4] [1, 2, 5, 5, 1]
            [[], [0], [1], [0], [2, 3]] [1, 2, 3, 4, 5] 0 = Some (None, s)"
    by (auto split: option.splits prod.splits)
  have i: "(3 :: nat) \<in> set [0, 1, 2, 3, 4]" by simp
  from finish_node_time[OF e i] e i show ?thesis by blast
qed

section \<open>The sampler emits topological orders\<close>

lemma successors_nth:
  "i < length predecessors \<Longrightarrow>
   successors_by_predecessors predecessors ! i
     = filter (\<lambda>j. i \<in> set (predecessors ! j)) [0..<length predecessors]"
  by (simp add: successors_by_predecessors_def Let_def)

lemma successors_length: "length (successors_by_predecessors predecessors) = length predecessors"
  by (simp add: successors_by_predecessors_def Let_def)

lemma succ_loop_result:
  "distinct ss \<Longrightarrow> (\<And>s. s \<in> set ss \<Longrightarrow> s < length rem \<and> i \<in> rem ! s) \<Longrightarrow>
   \<exists>rem'. succ_loop i ss rem ready = Inr (rem', ready @ filter (\<lambda>s. rem ! s - {i} = {}) ss)
      \<and> length rem' = length rem
      \<and> (\<forall>s<length rem. rem' ! s = (if s \<in> set ss then rem ! s - {i} else rem ! s))"
proof (induction ss arbitrary: rem ready)
  case Nil
  then show ?case by simp
next
  case (Cons s ss)
  let ?rem1 = "rem[s := rem ! s - {i}]"
  let ?ready1 = "if ?rem1 ! s = {} then ready @ [s] else ready"
  from Cons.prems(2)[of s] have s: "s < length rem" "i \<in> rem ! s" by simp_all
  from Cons.prems(1) have d: "distinct ss" "s \<notin> set ss" by simp_all
  have same: "\<And>t. t \<in> set ss \<Longrightarrow> ?rem1 ! t = rem ! t"
  proof -
    fix t assume "t \<in> set ss"
    with d(2) have "s \<noteq> t" by blast
    then show "?rem1 ! t = rem ! t" by simp
  qed
  have pre: "\<And>t. t \<in> set ss \<Longrightarrow> t < length ?rem1 \<and> i \<in> ?rem1 ! t"
    using Cons.prems(2) same by simp
  from Cons.IH[OF d(1) pre, of ?ready1] obtain rem' where
    r: "succ_loop i ss ?rem1 ?ready1 = Inr (rem', ?ready1 @ filter (\<lambda>t. ?rem1 ! t - {i} = {}) ss)"
    and l: "length rem' = length ?rem1"
    and v: "\<forall>t<length ?rem1. rem' ! t = (if t \<in> set ss then ?rem1 ! t - {i} else ?rem1 ! t)"
    by blast
  have f: "filter (\<lambda>t. ?rem1 ! t - {i} = {}) ss = filter (\<lambda>t. rem ! t - {i} = {}) ss"
    by (rule filter_cong) (simp_all add: same)
  have rs: "?rem1 ! s = rem ! s - {i}" using s(1) by simp
  have e1: "succ_loop i (s # ss) rem ready = succ_loop i ss ?rem1 ?ready1"
    using s by (simp add: Let_def)
  have e2: "?ready1 @ filter (\<lambda>t. rem ! t - {i} = {}) ss = ready @ filter (\<lambda>t. rem ! t - {i} = {}) (s # ss)"
    using rs by simp
  have v': "\<forall>t<length rem. rem' ! t = (if t \<in> set (s # ss) then rem ! t - {i} else rem ! t)"
  proof (intro allI impI)
    fix t assume t: "t < length rem"
    show "rem' ! t = (if t \<in> set (s # ss) then rem ! t - {i} else rem ! t)"
    proof (cases "t = s")
      case True
      with v t d(2) rs show ?thesis by simp
    next
      case False
      with v t show ?thesis by simp
    qed
  qed
  from r l v' show ?case unfolding e1 f e2 by simp
qed

lemma topological_snoc:
  "topological predecessors (res @ [i]) =
     (topological predecessors res \<and> (\<forall>p\<in>set (predecessors ! i). p \<in> set res))"
proof
  assume t: "topological predecessors (res @ [i])"
  then have h: "\<And>k p. k < Suc (length res) \<Longrightarrow> p \<in> set (predecessors ! ((res @ [i]) ! k)) \<Longrightarrow>
                 p \<in> set (take k (res @ [i]))"
    by (simp add: topological_def)
  have "\<And>k p. k < length res \<Longrightarrow> p \<in> set (predecessors ! (res ! k)) \<Longrightarrow> p \<in> set (take k res)"
  proof -
    fix k p assume k: "k < length res" and p: "p \<in> set (predecessors ! (res ! k))"
    from k have "(res @ [i]) ! k = res ! k" by (simp add: nth_append)
    with p have "p \<in> set (predecessors ! ((res @ [i]) ! k))" by simp
    moreover from k have "k < Suc (length res)" by simp
    ultimately have "p \<in> set (take k (res @ [i]))" by (rule h[rotated])
    with k show "p \<in> set (take k res)" by simp
  qed
  moreover have "\<And>p. p \<in> set (predecessors ! i) \<Longrightarrow> p \<in> set res"
    using h[of "length res"] by simp
  ultimately show "topological predecessors res \<and> (\<forall>p\<in>set (predecessors ! i). p \<in> set res)"
    by (simp add: topological_def)
next
  assume a: "topological predecessors res \<and> (\<forall>p\<in>set (predecessors ! i). p \<in> set res)"
  show "topological predecessors (res @ [i])"
    unfolding topological_def
  proof (intro allI impI ballI)
    fix k p assume k: "k < length (res @ [i])" and p: "p \<in> set (predecessors ! ((res @ [i]) ! k))"
    show "p \<in> set (take k (res @ [i]))"
    proof (cases "k < length res")
      case True
      with a p show ?thesis by (simp add: topological_def nth_append)
    next
      case False
      with k have "k = length res" by simp
      with a p show ?thesis by simp
    qed
  qed
qed

lemma gen_step_inv:
  assumes inv: "gen_inv predecessors res rem ready" and i: "i \<in> set ready"
  shows "i < length predecessors"
    and "\<exists>rem' new. succ_loop i (successors_by_predecessors predecessors ! i) rem (remove1 i ready)
              = Inr (rem', remove1 i ready @ new)
           \<and> gen_inv predecessors (res @ [i]) rem' (remove1 i ready @ new)"
proof -
  let ?n = "length predecessors"
  let ?ss = "filter (\<lambda>j. i \<in> set (predecessors ! j)) [0..<?n]"
  let ?R1 = "remove1 i ready"
  let ?new = "filter (\<lambda>s. rem ! s - {i} = {}) ?ss"
  from inv have lr: "length rem = ?n"
    and rm: "\<And>s. s < ?n \<Longrightarrow> rem ! s = set (predecessors ! s) - set res"
    and dist: "distinct (res @ ready)"
    and un: "set res \<union> set ready = {j. j < ?n \<and> rem ! j = {}}"
    and topo: "topological predecessors res"
    by (simp_all add: gen_inv_def)
  from i un have "i \<in> {j. j < ?n \<and> rem ! j = {}}" by blast
  then have iN: "i < ?n" and ri: "rem ! i = {}" by simp_all
  show "i < ?n" by (rule iN)
  from dist i have inr: "i \<notin> set res" by auto
  have mem: "\<And>x. x \<in> set res \<union> set ready \<longleftrightarrow> x < ?n \<and> rem ! x = {}"
    using un by blast
  have ss: "successors_by_predecessors predecessors ! i = ?ss" using iN by (rule successors_nth)
  have dss: "distinct ?ss" by simp
  have pre: "\<And>s. s \<in> set ?ss \<Longrightarrow> s < length rem \<and> i \<in> rem ! s"
  proof -
    fix s assume "s \<in> set ?ss"
    then have s: "s < ?n" "i \<in> set (predecessors ! s)" by simp_all
    with rm[OF s(1)] inr lr show "s < length rem \<and> i \<in> rem ! s" by simp
  qed
  from succ_loop_result[OF dss pre, of ?R1] obtain rem' where
    sl: "succ_loop i ?ss rem ?R1 = Inr (rem', ?R1 @ ?new)"
    and lr': "length rem' = length rem"
    and v: "\<forall>s<length rem. rem' ! s = (if s \<in> set ?ss then rem ! s - {i} else rem ! s)"
    by blast
  have R: "\<And>s. s < ?n \<Longrightarrow> rem' ! s = rem ! s - {i}"
  proof -
    fix s assume s: "s < ?n"
    show "rem' ! s = rem ! s - {i}"
    proof (cases "s \<in> set ?ss")
      case True
      with v s lr show ?thesis by simp
    next
      case False
      with s have "i \<notin> set (predecessors ! s)" by simp
      with rm[OF s] have "i \<notin> rem ! s" by simp
      then have "rem ! s - {i} = rem ! s" by simp
      with False v s lr show ?thesis by simp
    qed
  qed
  have b: "\<forall>s<?n. rem' ! s = set (predecessors ! s) - set (res @ [i])"
  proof (intro allI impI)
    fix s assume s: "s < ?n"
    have "rem' ! s = set (predecessors ! s) - set res - {i}" using R[OF s] rm[OF s] by simp
    also have "\<dots> = set (predecessors ! s) - set (res @ [i])" by auto
    finally show "rem' ! s = set (predecessors ! s) - set (res @ [i])" .
  qed
  have newD: "\<And>s. s \<in> set ?new \<Longrightarrow> s < ?n \<and> i \<in> rem ! s \<and> rem ! s - {i} = {}"
  proof -
    fix s assume "s \<in> set ?new"
    then have "s \<in> set ?ss" and e: "rem ! s - {i} = {}" by simp_all
    with pre[of s] lr show "s < ?n \<and> i \<in> rem ! s \<and> rem ! s - {i} = {}" by simp
  qed
  have new_fresh: "\<And>s. s \<in> set ?new \<Longrightarrow> s \<notin> set res \<and> s \<notin> set ready"
  proof -
    fix s assume "s \<in> set ?new"
    from newD[OF this] have "rem ! s \<noteq> {}" by blast
    with mem[of s] show "s \<notin> set res \<and> s \<notin> set ready" by blast
  qed
  have sR1: "set ?R1 = set ready - {i}" using dist by simp
  have c: "distinct ((res @ [i]) @ ?R1 @ ?new)"
  proof -
    have "distinct res" "distinct ?R1" "distinct ?new" using dist by simp_all
    moreover have "i \<notin> set res" by (rule inr)
    moreover have "i \<notin> set ?R1" using sR1 by simp
    moreover have "i \<notin> set ?new" using new_fresh i by blast
    moreover have "set res \<inter> set ?R1 = {}" using dist sR1 by auto
    moreover have "set res \<inter> set ?new = {}" using new_fresh by blast
    moreover have "set ?R1 \<inter> set ?new = {}" using new_fresh sR1 by blast
    ultimately show ?thesis by auto
  qed
  have d: "set (res @ [i]) \<union> set (?R1 @ ?new) = {j. j < ?n \<and> rem' ! j = {}}"
  proof (rule set_eqI)
    fix x
    have l: "x \<in> set (res @ [i]) \<union> set (?R1 @ ?new) \<longleftrightarrow> x \<in> set res \<union> set ready \<or> x \<in> set ?new"
      using sR1 i by auto
    show "x \<in> set (res @ [i]) \<union> set (?R1 @ ?new) \<longleftrightarrow> x \<in> {j. j < ?n \<and> rem' ! j = {}}"
    proof
      assume "x \<in> set (res @ [i]) \<union> set (?R1 @ ?new)"
      with l consider "x \<in> set res \<union> set ready" | "x \<in> set ?new" by blast
      then show "x \<in> {j. j < ?n \<and> rem' ! j = {}}"
      proof cases
        case 1
        with mem[of x] have "x < ?n" "rem ! x = {}" by simp_all
        with R[of x] show ?thesis by simp
      next
        case 2
        from newD[OF 2] R[of x] show ?thesis by simp
      qed
    next
      assume "x \<in> {j. j < ?n \<and> rem' ! j = {}}"
      then have x: "x < ?n" and e: "rem ! x - {i} = {}" using R[of x] by simp_all
      show "x \<in> set (res @ [i]) \<union> set (?R1 @ ?new)"
      proof (cases "rem ! x = {}")
        case True
        with x mem[of x] l show ?thesis by blast
      next
        case False
        with e have "i \<in> rem ! x" by blast
        with rm[OF x] have "i \<in> set (predecessors ! x)" by simp
        with x e have "x \<in> set ?new" by simp
        with l show ?thesis by blast
      qed
    qed
  qed
  have "\<forall>p\<in>set (predecessors ! i). p \<in> set res" using rm[OF iN] ri by blast
  with topo have e: "topological predecessors (res @ [i])" by (simp add: topological_snoc)
  have "gen_inv predecessors (res @ [i]) rem' (?R1 @ ?new)"
    unfolding gen_inv_def using lr lr' b c d e by simp
  with sl show "\<exists>rem' new. succ_loop i (successors_by_predecessors predecessors ! i) rem ?R1
              = Inr (rem', ?R1 @ new)
           \<and> gen_inv predecessors (res @ [i]) rem' (?R1 @ new)"
    unfolding ss by blast
qed

lemma pred_rel_wf:
  assumes "preds_exist predecessors" and "acyclic (pred_rel predecessors)"
  shows "wf (pred_rel predecessors)"
proof -
  have "pred_rel predecessors \<subseteq> {0..<length predecessors} \<times> {0..<length predecessors}"
    using assms(1) by (auto simp: pred_rel_def preds_exist_def)
  then have "finite (pred_rel predecessors)" by (rule finite_subset) simp
  then show ?thesis using assms(2) by (rule finite_acyclic_wf)
qed

lemma gen_inv_final:
  assumes pe: "preds_exist predecessors" and ac: "acyclic (pred_rel predecessors)"
    and inv: "gen_inv predecessors res rem []"
  shows "distinct res \<and> set res = {0..<length predecessors} \<and> topological predecessors res"
proof -
  let ?n = "length predecessors"
  from inv have rm: "\<And>s. s < ?n \<Longrightarrow> rem ! s = set (predecessors ! s) - set res"
    and dist: "distinct res"
    and un: "set res = {j. j < ?n \<and> rem ! j = {}}"
    and topo: "topological predecessors res"
    by (simp_all add: gen_inv_def)
  have all: "j < ?n \<longrightarrow> j \<in> set res" for j
  proof (induction j rule: wf_induct_rule[OF pred_rel_wf[OF pe ac]])
    case (1 j)
    show ?case
    proof
      assume j: "j < ?n"
      have "set (predecessors ! j) \<subseteq> set res"
      proof
        fix p assume p: "p \<in> set (predecessors ! j)"
        with j have "(p, j) \<in> pred_rel predecessors" by (simp add: pred_rel_def)
        moreover from pe j p have "p < ?n" by (simp add: preds_exist_def)
        ultimately show "p \<in> set res" using 1 by blast
      qed
      with rm[OF j] have "rem ! j = {}" by blast
      with j un show "j \<in> set res" by blast
    qed
  qed
  have "set res = {0..<?n}"
  proof (rule set_eqI)
    fix x show "x \<in> set res \<longleftrightarrow> x \<in> {0..<?n}"
      using all[of x] un by auto
  qed
  with dist topo show ?thesis by simp
qed

lemma gen_inv_length:
  assumes inv: "gen_inv predecessors res rem ready" and ne: "ready \<noteq> []"
  shows "length res < length predecessors"
proof -
  let ?n = "length predecessors"
  from inv have dist: "distinct (res @ ready)"
    and un: "set res \<union> set ready = {j. j < ?n \<and> rem ! j = {}}"
    by (simp_all add: gen_inv_def)
  have "set (res @ ready) \<subseteq> {0..<?n}" using un by auto
  then have "card (set (res @ ready)) \<le> card {0..<?n}" by (rule card_mono[rotated]) simp
  moreover have "card (set (res @ ready)) = length (res @ ready)" using dist by (rule distinct_card)
  ultimately have le: "length res + length ready \<le> ?n" by simp
  from ne have "1 \<le> length ready" by (cases ready) simp_all
  with le show ?thesis by linarith
qed

lemma gen_loop_correct:
  assumes pe: "preds_exist predecessors" and ac: "acyclic (pred_rel predecessors)"
    and pick_ok: "\<And>r xs. xs \<noteq> [] \<Longrightarrow> \<exists>i r'. pick r xs = (Inr i, r') \<and> i \<in> set xs"
  shows "gen_inv predecessors res rem ready \<Longrightarrow>
         \<exists>res' r'. gen_loop pick (successors_by_predecessors predecessors) r res rem ready
                      = Some (Inr res', r')
            \<and> distinct res' \<and> set res' = {0..<length predecessors}
            \<and> topological predecessors res'"
proof (induction "length predecessors - length res" arbitrary: r res rem ready rule: less_induct)
  case less
  show ?case
  proof (cases "ready = []")
    case True
    with less.prems have "gen_inv predecessors res rem []" by simp
    from gen_inv_final[OF pe ac this] True show ?thesis
      by (subst gen_loop.simps) simp
  next
    case False
    from pick_ok[OF False, of r] obtain i r' where p: "pick r ready = (Inr i, r')" and i: "i \<in> set ready"
      by blast
    from gen_step_inv[OF less.prems i] obtain rem' new where iN: "i < length predecessors"
      and sl: "succ_loop i (successors_by_predecessors predecessors ! i) rem (remove1 i ready)
              = Inr (rem', remove1 i ready @ new)"
      and inv': "gen_inv predecessors (res @ [i]) rem' (remove1 i ready @ new)"
      by blast
    from gen_inv_length[OF less.prems False]
    have "length predecessors - length (res @ [i]) < length predecessors - length res" by simp
    from less.hyps[OF this inv', of r'] obtain res' r'' where
      rec: "gen_loop pick (successors_by_predecessors predecessors) r' (res @ [i]) rem'
              (remove1 i ready @ new) = Some (Inr res', r'')"
      and fin: "distinct res' \<and> set res' = {0..<length predecessors} \<and> topological predecessors res'"
      by blast
    have "gen_loop pick (successors_by_predecessors predecessors) r res rem ready = Some (Inr res', r'')"
      using False p i iN sl rec
      by (subst gen_loop.simps) (simp add: successors_length)
    with fin show ?thesis by blast
  qed
qed

lemma gen_init_inv:
  "gen_inv predecessors [] (map set predecessors)
     (filter (\<lambda>i. map set predecessors ! i = {}) [0..<length predecessors])"
  by (auto simp: gen_inv_def topological_def)

lemma gen_correct:
  assumes pe: "preds_exist predecessors" and ac: "acyclic (pred_rel predecessors)"
    and pick_ok: "\<And>r xs. xs \<noteq> [] \<Longrightarrow> \<exists>i r'. pick r xs = (Inr i, r') \<and> i \<in> set xs"
  shows "\<exists>res r'. gen (ActivityListSampler predecessors) pick r = Some (Inr res, r')
            \<and> distinct res \<and> set res = {0..<length predecessors}
            \<and> topological predecessors res"
  using gen_loop_correct[OF pe ac pick_ok gen_init_inv, where r = r]
  by (simp add: gen_def ActivityListSampler_def Let_def)

lemma fold_first_min:
  "first_min rule pre k \<Longrightarrow>
   \<exists>k'. fold (\<lambda>y best. if rule y < rule best then y else best) xs (pre ! k) = (pre @ xs) ! k'
        \<and> first_min rule (pre @ xs) k'"
proof (induction xs arbitrary: pre k)
  case Nil
  then show ?case by auto
next
  case (Cons y ys)
  let ?f = "\<lambda>y best. if rule y < rule best then y else best"
  from Cons.prems have k: "k < length pre"
    and mn: "\<And>j. j < length pre \<Longrightarrow> rule (pre ! k) \<le> rule (pre ! j)"
    and st: "\<And>j. j < k \<Longrightarrow> rule (pre ! k) < rule (pre ! j)"
    by (simp_all add: first_min_def)
  let ?k' = "if rule y < rule (pre ! k) then length pre else k"
  have val: "(pre @ [y]) ! ?k' = ?f y (pre ! k)" using k by (simp add: nth_append)
  have fm: "first_min rule (pre @ [y]) ?k'"
  proof (cases "rule y < rule (pre ! k)")
    case True
    have "\<And>j. j < length (pre @ [y]) \<Longrightarrow> rule y \<le> rule ((pre @ [y]) ! j)"
    proof -
      fix j assume "j < length (pre @ [y])"
      then consider "j < length pre" | "j = length pre" by fastforce
      then show "rule y \<le> rule ((pre @ [y]) ! j)"
      proof cases
        case 1
        with mn[OF 1] True show ?thesis by (simp add: nth_append)
      next
        case 2
        then show ?thesis by simp
      qed
    qed
    moreover have "\<And>j. j < length pre \<Longrightarrow> rule y < rule ((pre @ [y]) ! j)"
    proof -
      fix j assume j: "j < length pre"
      with mn[OF j] True show "rule y < rule ((pre @ [y]) ! j)" by (simp add: nth_append)
    qed
    ultimately show ?thesis using True by (simp add: first_min_def)
  next
    case False
    have "\<And>j. j < length (pre @ [y]) \<Longrightarrow> rule (pre ! k) \<le> rule ((pre @ [y]) ! j)"
    proof -
      fix j assume "j < length (pre @ [y])"
      then consider "j < length pre" | "j = length pre" by fastforce
      then show "rule (pre ! k) \<le> rule ((pre @ [y]) ! j)"
      proof cases
        case 1
        with mn[OF 1] show ?thesis by (simp add: nth_append)
      next
        case 2
        with False show ?thesis by simp
      qed
    qed
    moreover have "\<And>j. j < k \<Longrightarrow> rule (pre ! k) < rule ((pre @ [y]) ! j)"
    proof -
      fix j assume j: "j < k"
      with k st[OF j] show "rule (pre ! k) < rule ((pre @ [y]) ! j)" by (simp add: nth_append)
    qed
    ultimately show ?thesis using False k by (simp add: first_min_def nth_append)
  qed
  from Cons.IH[OF fm] obtain k' where
    "fold ?f ys ((pre @ [y]) ! ?k') = ((pre @ [y]) @ ys) ! k'"
    and "first_min rule ((pre @ [y]) @ ys) k'" by blast
  then show ?case unfolding val by auto
qed

lemma min_key_first_min:
  assumes "xs \<noteq> []"
  shows "\<exists>k. min_key rule xs = Inr (xs ! k) \<and> first_min rule xs k"
proof -
  from assms obtain x ys where xs: "xs = x # ys" by (cases xs) auto
  have "first_min rule [x] 0" by (simp add: first_min_def)
  from fold_first_min[OF this, of ys] show ?thesis unfolding xs by simp
qed

lemma min_key_pick:
  "xs \<noteq> [] \<Longrightarrow> \<exists>i r'. (min_key rule xs, r) = (Inr i, r') \<and> i \<in> set xs"
  using min_key_first_min[of xs rule] by (auto simp: first_min_def)

text \<open>
  Claim C5: for an acyclic predecessor structure whose predecessors are existing
  activities, \<^verbatim>\<open>min_rule\<close> (for any key function) and \<^verbatim>\<open>random\<close> (for any
  \<^verbatim>\<open>choice\<close> that returns an element of a non-empty sequence) return an order that
  contains each of the \<open>n\<close> activity indices exactly once and places every activity after
  all of its predecessors.
\<close>

theorem sampler_order_topological:
  assumes "preds_exist predecessors" and "acyclic (pred_rel predecessors)"
  shows "(\<exists>res. min_rule (ActivityListSampler predecessors) rule = Some (Inr res)
            \<and> distinct res \<and> set res = {0..<length predecessors}
            \<and> topological predecessors res)
       \<and> ((\<forall>r xs. xs \<noteq> [] \<longrightarrow> (\<exists>i r'. choice r xs = (Inr i, r') \<and> i \<in> set xs)) \<longrightarrow>
          (\<exists>res r'. random (ActivityListSampler predecessors) choice r = Some (Inr res, r')
            \<and> distinct res \<and> set res = {0..<length predecessors}
            \<and> topological predecessors res))"
proof
  have "\<exists>res r'. gen (ActivityListSampler predecessors) (\<lambda>r x. (min_key rule x, r)) () = Some (Inr res, r')
            \<and> distinct res \<and> set res = {0..<length predecessors}
            \<and> topological predecessors res"
    by (rule gen_correct[OF assms]) (rule min_key_pick)
  then show "\<exists>res. min_rule (ActivityListSampler predecessors) rule = Some (Inr res)
            \<and> distinct res \<and> set res = {0..<length predecessors}
            \<and> topological predecessors res"
    by (auto simp: min_rule_def)
next
  show "(\<forall>r xs. xs \<noteq> [] \<longrightarrow> (\<exists>i r'. choice r xs = (Inr i, r') \<and> i \<in> set xs)) \<longrightarrow>
          (\<exists>res r'. random (ActivityListSampler predecessors) choice r = Some (Inr res, r')
            \<and> distinct res \<and> set res = {0..<length predecessors}
            \<and> topological predecessors res)"
  proof
    assume c: "\<forall>r xs. xs \<noteq> [] \<longrightarrow> (\<exists>i r'. choice r xs = (Inr i, r') \<and> i \<in> set xs)"
    have "\<exists>res r'. gen (ActivityListSampler predecessors) choice r = Some (Inr res, r')
            \<and> distinct res \<and> set res = {0..<length predecessors}
            \<and> topological predecessors res"
      by (rule gen_correct[OF assms]) (use c in blast)
    then show "\<exists>res r'. random (ActivityListSampler predecessors) choice r = Some (Inr res, r')
            \<and> distinct res \<and> set res = {0..<length predecessors}
            \<and> topological predecessors res"
      by (simp add: random_def)
  qed
qed

lemma example_preds_exist: "preds_exist [[], [0], [1], [0], [2, 3]]"
  by (simp add: preds_exist_def less_Suc_eq numeral_eq_Suc nth_Cons')

lemma example_acyclic: "acyclic (pred_rel [[], [0], [1], [0], [2, 3]])"
proof (rule acyclicI_order[where f = "\<lambda>i. 10 - i"])
  fix a b :: nat
  assume "(a, b) \<in> pred_rel [[], [0], [1], [0], [2, 3]]"
  then have "b < 5" and "a \<in> set ([[], [0], [1], [0], [2, 3]] ! b)" by (simp_all add: pred_rel_def)
  then have "a < b" by (auto simp: less_Suc_eq numeral_eq_Suc nth_Cons')
  with \<open>b < 5\<close> show "10 - b < 10 - a" by simp
qed

theorem sampler_order_topological_witness:
  "min_rule (ActivityListSampler [[], [0], [1], [0], [2, 3]]) (\<lambda>i. - int i) = Some (Inr [0, 3, 1, 2, 4])
   \<and> distinct [0, 3, 1, 2, 4 :: nat]
   \<and> set [0, 3, 1, 2, 4 :: nat] = {0..<length [[], [0], [1], [0], [2, 3 :: nat]]}
   \<and> (\<exists>res r'. random (ActivityListSampler [[], [0], [1], [0], [2, 3]])
                   (\<lambda>r xs. (case xs of [] \<Rightarrow> Inl IndexError | x # _ \<Rightarrow> Inr x, r)) () = Some (Inr res, r')
            \<and> distinct res \<and> set res = {0..<length [[], [0], [1], [0], [2, 3 :: nat]]})"
proof -
  have c: "\<forall>r :: unit. \<forall>xs :: nat list. xs \<noteq> [] \<longrightarrow>
         (\<exists>i r'. (case xs of [] \<Rightarrow> Inl IndexError | x # _ \<Rightarrow> Inr x, r) = (Inr i, r') \<and> i \<in> set xs)"
    by (auto split: list.splits)
  note T = sampler_order_topological[OF example_preds_exist example_acyclic,
      of "\<lambda>i. - int i" "\<lambda>r xs. (case xs of [] \<Rightarrow> Inl IndexError | x # _ \<Rightarrow> Inr x, r)" "()"]
  from T obtain res where m: "min_rule (ActivityListSampler [[], [0], [1], [0], [2, 3]]) (\<lambda>i. - int i) = Some (Inr res)"
    and d: "distinct res" "set res = {0..<length [[], [0], [1], [0], [2, 3 :: nat]]}"
    by blast
  have ev: "min_rule (ActivityListSampler [[], [0], [1], [0], [2, 3]]) (\<lambda>i. - int i) = Some (Inr [0, 3, 1, 2, 4])"
    by code_simp
  with m have "res = [0, 3, 1, 2, 4]" by simp
  with d ev T c show ?thesis by blast
qed

section \<open>The selection rule of \<^verbatim>\<open>min_rule\<close>\<close>

lemma pos_append: "x \<in> set xs \<Longrightarrow> pos (xs @ ys) x = pos xs x"
  by (simp add: pos_def takeWhile_append1)

lemma pos_less: "x \<in> set xs \<Longrightarrow> pos xs x < length xs"
  unfolding pos_def by (induction xs) auto

lemma pos_snoc_new: "x \<notin> set xs \<Longrightarrow> pos (xs @ [x]) x = length xs"
  unfolding pos_def by (induction xs) auto

lemma entered_stable:
  assumes "set (predecessors ! j) \<subseteq> set res"
  shows "entered predecessors (res @ ys) j = entered predecessors res j"
proof -
  have "pos (res @ ys) ` set (predecessors ! j) = pos res ` set (predecessors ! j)"
    by (rule image_cong) (use assms pos_append in auto)
  then show ?thesis by (simp add: entered_def)
qed

lemma entered_le:
  assumes "set (predecessors ! j) \<subseteq> set res"
  shows "entered predecessors res j \<le> length res"
proof (cases "predecessors ! j = []")
  case True
  then show ?thesis by (simp add: entered_def)
next
  case False
  have "Max (pos res ` set (predecessors ! j)) < length res"
  proof (subst Max_less_iff)
    show "finite (pos res ` set (predecessors ! j))" by simp
    show "pos res ` set (predecessors ! j) \<noteq> {}" using False by simp
    show "\<forall>a\<in>pos res ` set (predecessors ! j). a < length res"
      using assms pos_less by auto
  qed
  with False show ?thesis unfolding entered_def by (simp only: if_False Suc_le_eq)
qed

lemma entered_new:
  assumes i: "i \<in> set (predecessors ! s)" and nr: "i \<notin> set res"
    and sub: "set (predecessors ! s) \<subseteq> set (res @ [i])"
  shows "entered predecessors (res @ [i]) s = Suc (length res)"
proof -
  from i have ne: "predecessors ! s \<noteq> []" by auto
  have "Max (pos (res @ [i]) ` set (predecessors ! s)) = length res"
  proof (rule Max_eqI)
    show "finite (pos (res @ [i]) ` set (predecessors ! s))" by simp
    show "length res \<in> pos (res @ [i]) ` set (predecessors ! s)"
      using i pos_snoc_new[OF nr] by (metis image_eqI)
    fix y assume "y \<in> pos (res @ [i]) ` set (predecessors ! s)"
    then obtain p where p: "p \<in> set (predecessors ! s)" and y: "y = pos (res @ [i]) p" by auto
    from p sub have "p \<in> set (res @ [i])" by blast
    from pos_less[OF this] y show "y \<le> length res" by simp
  qed
  with ne show ?thesis by (simp add: entered_def)
qed

lemma sorted_wrt_remove1: "sorted_wrt P xs \<Longrightarrow> sorted_wrt P (remove1 x xs)"
proof (induction xs)
  case Nil
  then show ?case by simp
next
  case (Cons y ys)
  have "set (remove1 x ys) \<subseteq> set ys" by (rule set_remove1_subset)
  with Cons show ?case by auto
qed

lemma gen_inv_ready_at:
  assumes inv: "gen_inv predecessors res rem ready"
  shows "ready_at predecessors res j = (j \<in> set ready)"
proof -
  let ?n = "length predecessors"
  from inv have rm: "\<And>s. s < ?n \<Longrightarrow> rem ! s = set (predecessors ! s) - set res"
    and dist: "distinct (res @ ready)"
    and un: "set res \<union> set ready = {j. j < ?n \<and> rem ! j = {}}"
    by (simp_all add: gen_inv_def)
  have mem: "\<And>x. x \<in> set res \<union> set ready \<longleftrightarrow> x < ?n \<and> rem ! x = {}" using un by blast
  show ?thesis
  proof
    assume r: "ready_at predecessors res j"
    then have j: "j < ?n" "j \<notin> set res" "set (predecessors ! j) \<subseteq> set res"
      by (simp_all add: ready_at_def)
    from rm[OF j(1)] j(3) have "rem ! j = {}" by blast
    with j(1) mem[of j] j(2) show "j \<in> set ready" by blast
  next
    assume r: "j \<in> set ready"
    with mem[of j] have j: "j < ?n" "rem ! j = {}" by blast+
    from dist r have "j \<notin> set res" by auto
    moreover from rm[OF j(1)] j(2) have "set (predecessors ! j) \<subseteq> set res" by blast
    ultimately show "ready_at predecessors res j" using j(1) by (simp add: ready_at_def)
  qed
qed

lemma first_min_preferred:
  assumes so: "sorted_wrt (entered_before predecessors res) ready"
    and fm: "first_min rule ready k" and j: "j \<in> set ready"
  shows "j = ready ! k \<or> preferred predecessors rule res (ready ! k) j"
proof -
  from j obtain m where m: "m < length ready" "ready ! m = j" by (auto simp: in_set_conv_nth)
  from fm have k: "k < length ready"
    and mn: "\<And>x. x < length ready \<Longrightarrow> rule (ready ! k) \<le> rule (ready ! x)"
    and st: "\<And>x. x < k \<Longrightarrow> rule (ready ! k) < rule (ready ! x)"
    by (simp_all add: first_min_def)
  show ?thesis
  proof (cases "m = k")
    case True
    with m show ?thesis by simp
  next
    case False
    show ?thesis
    proof (cases "rule (ready ! k) < rule j")
      case True
      then show ?thesis by (simp add: preferred_def)
    next
      case nl: False
      with mn[OF m(1)] m(2) have eq: "rule (ready ! k) = rule j" by simp
      have "\<not> m < k" using st[of m] eq m(2) by auto
      with False have "k < m" by simp
      from sorted_wrt_nth_less[OF so this m(1)] m(2)
      have "entered_before predecessors res (ready ! k) j" by simp
      with eq show ?thesis by (simp add: preferred_def)
    qed
  qed
qed

lemma sel_prefix_snoc:
  assumes inv: "gen_inv predecessors res rem ready"
    and so: "sorted_wrt (entered_before predecessors res) ready"
    and sp: "sel_prefix predecessors rule res"
    and fm: "first_min rule ready k"
  shows "sel_prefix predecessors rule (res @ [ready ! k])"
  unfolding sel_prefix_def
proof (intro allI impI)
  fix x assume x: "x < length (res @ [ready ! k])"
  let ?res' = "res @ [ready ! k]"
  show "ready_at predecessors (take x ?res') (?res' ! x) \<and>
        (\<forall>j. ready_at predecessors (take x ?res') j \<longrightarrow>
              j = ?res' ! x \<or> preferred predecessors rule (take x ?res') (?res' ! x) j)"
  proof (cases "x < length res")
    case True
    then have "take x ?res' = take x res" "?res' ! x = res ! x" by (simp_all add: nth_append)
    with sp True show ?thesis by (simp add: sel_prefix_def)
  next
    case False
    with x have "x = length res" by simp
    then have e: "take x ?res' = res" "?res' ! x = ready ! k" by simp_all
    from fm have "k < length ready" by (simp add: first_min_def)
    then have "ready ! k \<in> set ready" by simp
    then have "ready_at predecessors res (ready ! k)" using gen_inv_ready_at[OF inv] by simp
    moreover have "\<forall>j. ready_at predecessors res j \<longrightarrow>
              j = ready ! k \<or> preferred predecessors rule res (ready ! k) j"
      using gen_inv_ready_at[OF inv] first_min_preferred[OF so fm] by simp
    ultimately show ?thesis unfolding e by simp
  qed
qed

lemma succ_loop_new:
  "succ_loop i ss rem ready = Inr (rem', ready') \<Longrightarrow> distinct ss \<Longrightarrow>
   ready' = ready @ filter (\<lambda>s. rem ! s - {i} = {}) ss"
proof (induction ss arbitrary: rem ready)
  case Nil
  then show ?case by simp
next
  case (Cons s ss)
  let ?rem1 = "rem[s := rem ! s - {i}]"
  let ?ready1 = "if ?rem1 ! s = {} then ready @ [s] else ready"
  from Cons.prems(1) have s: "s < length rem"
    and r: "succ_loop i ss ?rem1 ?ready1 = Inr (rem', ready')"
    by (simp_all add: Let_def split: if_splits)
  from Cons.prems(2) have d: "distinct ss" "s \<notin> set ss" by simp_all
  have f: "filter (\<lambda>t. ?rem1 ! t - {i} = {}) ss = filter (\<lambda>t. rem ! t - {i} = {}) ss"
  proof (rule filter_cong)
    fix t assume "t \<in> set ss"
    with d(2) have "s \<noteq> t" by blast
    then show "(?rem1 ! t - {i} = {}) = (rem ! t - {i} = {})" by simp
  qed simp
  have rs: "?rem1 ! s = rem ! s - {i}" using s by simp
  from Cons.IH[OF r d(1)] have "ready' = ?ready1 @ filter (\<lambda>t. rem ! t - {i} = {}) ss"
    unfolding f .
  then show ?case using rs by simp
qed

lemma ready_sorted_step:
  assumes inv: "gen_inv predecessors res rem ready"
    and so: "sorted_wrt (entered_before predecessors res) ready"
    and i: "i \<in> set ready"
  shows "sorted_wrt (entered_before predecessors (res @ [i]))
           (remove1 i ready @
            filter (\<lambda>s. rem ! s - {i} = {})
              (filter (\<lambda>j. i \<in> set (predecessors ! j)) [0..<length predecessors]))"
proof -
  let ?n = "length predecessors"
  let ?R1 = "remove1 i ready"
  let ?new = "filter (\<lambda>s. rem ! s - {i} = {}) (filter (\<lambda>j. i \<in> set (predecessors ! j)) [0..<?n])"
  from inv have rm: "\<And>s. s < ?n \<Longrightarrow> rem ! s = set (predecessors ! s) - set res"
    and dist: "distinct (res @ ready)"
    by (simp_all add: gen_inv_def)
  from dist i have inr: "i \<notin> set res" by auto
  have old: "\<And>x. x \<in> set ready \<Longrightarrow> set (predecessors ! x) \<subseteq> set res"
  proof -
    fix x assume "x \<in> set ready"
    then have "ready_at predecessors res x" using gen_inv_ready_at[OF inv] by simp
    then show "set (predecessors ! x) \<subseteq> set res" by (simp add: ready_at_def)
  qed
  have oldE: "\<And>x. x \<in> set ?R1 \<Longrightarrow> entered predecessors (res @ [i]) x = entered predecessors res x"
  proof -
    fix x assume "x \<in> set ?R1"
    then have "x \<in> set ready" using set_remove1_subset by fast
    from entered_stable[OF old[OF this]] show "entered predecessors (res @ [i]) x = entered predecessors res x" .
  qed
  have oldL: "\<And>x. x \<in> set ?R1 \<Longrightarrow> entered predecessors (res @ [i]) x \<le> length res"
  proof -
    fix x assume x: "x \<in> set ?R1"
    then have "x \<in> set ready" using set_remove1_subset by fast
    from entered_le[OF old[OF this]] oldE[OF x] show "entered predecessors (res @ [i]) x \<le> length res"
      by simp
  qed
  have newE: "\<And>s. s \<in> set ?new \<Longrightarrow> entered predecessors (res @ [i]) s = Suc (length res)"
  proof -
    fix s assume "s \<in> set ?new"
    then have s: "s < ?n" "i \<in> set (predecessors ! s)" "rem ! s - {i} = {}" by simp_all
    from rm[OF s(1)] s(3) have "set (predecessors ! s) \<subseteq> set (res @ [i])" by auto
    from entered_new[OF s(2) inr this] show "entered predecessors (res @ [i]) s = Suc (length res)" .
  qed
  have a: "sorted_wrt (entered_before predecessors (res @ [i])) ?R1"
  proof (rule sorted_wrt_mono_rel[OF _ sorted_wrt_remove1[OF so]])
    fix x y assume "x \<in> set ?R1" "y \<in> set ?R1" "entered_before predecessors res x y"
    then show "entered_before predecessors (res @ [i]) x y"
      using oldE by (simp add: entered_before_def)
  qed
  have "sorted_wrt (<) ?new" by (intro sorted_wrt_filter) simp
  then have b: "sorted_wrt (entered_before predecessors (res @ [i])) ?new"
  proof (rule sorted_wrt_mono_rel[rotated])
    fix x y assume "x \<in> set ?new" "y \<in> set ?new" "x < y"
    then show "entered_before predecessors (res @ [i]) x y"
      using newE by (simp add: entered_before_def)
  qed
  have c: "\<forall>x\<in>set ?R1. \<forall>y\<in>set ?new. entered_before predecessors (res @ [i]) x y"
  proof (intro ballI)
    fix x y assume x: "x \<in> set ?R1" and y: "y \<in> set ?new"
    from oldL[OF x] newE[OF y] show "entered_before predecessors (res @ [i]) x y"
      by (simp add: entered_before_def)
  qed
  from a b c show ?thesis by (simp only: sorted_wrt_append)
qed

lemma gen_loop_selects:
  assumes pe: "preds_exist predecessors" and ac: "acyclic (pred_rel predecessors)"
  shows "gen_inv predecessors res rem ready \<Longrightarrow>
         sorted_wrt (entered_before predecessors res) ready \<Longrightarrow>
         sel_prefix predecessors rule res \<Longrightarrow>
         \<exists>res' r'. gen_loop (\<lambda>r x. (min_key rule x, r)) (successors_by_predecessors predecessors)
                      r res rem ready = Some (Inr res', r')
            \<and> selects predecessors rule res'"
proof (induction "length predecessors - length res" arbitrary: r res rem ready rule: less_induct)
  case less
  note inv = less.prems(1) and so = less.prems(2) and sp = less.prems(3)
  show ?case
  proof (cases "ready = []")
    case True
    with inv have "gen_inv predecessors res rem []" by simp
    from gen_inv_final[OF pe ac this] have "distinct res" "set res = {0..<length predecessors}"
      by simp_all
    then have "length res = length predecessors" by (metis distinct_card card_atLeastLessThan diff_zero)
    with sp have "selects predecessors rule res" by (simp add: selects_def)
    with True show ?thesis by (subst gen_loop.simps) simp
  next
    case False
    from min_key_first_min[OF False, of rule] obtain k where
      m: "min_key rule ready = Inr (ready ! k)" and fm: "first_min rule ready k" by blast
    let ?i = "ready ! k"
    from fm have "k < length ready" by (simp add: first_min_def)
    then have i: "?i \<in> set ready" by simp
    from gen_step_inv[OF inv i] obtain rem' new where iN: "?i < length predecessors"
      and sl: "succ_loop ?i (successors_by_predecessors predecessors ! ?i) rem (remove1 ?i ready)
              = Inr (rem', remove1 ?i ready @ new)"
      and inv': "gen_inv predecessors (res @ [?i]) rem' (remove1 ?i ready @ new)"
      by blast
    have ss: "successors_by_predecessors predecessors ! ?i
                = filter (\<lambda>j. ?i \<in> set (predecessors ! j)) [0..<length predecessors]"
      using iN by (rule successors_nth)
    from succ_loop_new[OF sl] have
      "remove1 ?i ready @ new = remove1 ?i ready @
         filter (\<lambda>s. rem ! s - {?i} = {}) (successors_by_predecessors predecessors ! ?i)"
      unfolding ss by simp
    then have new: "remove1 ?i ready @ new = remove1 ?i ready @
         filter (\<lambda>s. rem ! s - {?i} = {})
           (filter (\<lambda>j. ?i \<in> set (predecessors ! j)) [0..<length predecessors])"
      unfolding ss .
    have so': "sorted_wrt (entered_before predecessors (res @ [?i])) (remove1 ?i ready @ new)"
      unfolding new by (rule ready_sorted_step[OF inv so i])
    have sp': "sel_prefix predecessors rule (res @ [?i])"
      by (rule sel_prefix_snoc[OF inv so sp fm])
    from gen_inv_length[OF inv False]
    have "length predecessors - length (res @ [?i]) < length predecessors - length res" by simp
    from less.hyps[OF this inv' so' sp', of r] obtain res' r' where
      rec: "gen_loop (\<lambda>r x. (min_key rule x, r)) (successors_by_predecessors predecessors) r
              (res @ [?i]) rem' (remove1 ?i ready @ new) = Some (Inr res', r')"
      and fin: "selects predecessors rule res'"
      by blast
    have "gen_loop (\<lambda>r x. (min_key rule x, r)) (successors_by_predecessors predecessors) r res rem ready
            = Some (Inr res', r')"
      using False m i iN sl rec
      by (subst gen_loop.simps) (simp add: successors_length)
    with fin show ?thesis by blast
  qed
qed

lemma gen_init_sorted:
  "sorted_wrt (entered_before predecessors [])
     (filter (\<lambda>i. map set predecessors ! i = {}) [0..<length predecessors])"
proof -
  let ?r0 = "filter (\<lambda>i. map set predecessors ! i = {}) [0..<length predecessors]"
  have "sorted_wrt (<) ?r0" by (intro sorted_wrt_filter) simp
  then show ?thesis
  proof (rule sorted_wrt_mono_rel[rotated])
    fix x y assume x: "x \<in> set ?r0" and y: "y \<in> set ?r0" and l: "x < y"
    have em: "\<And>z. z \<in> set ?r0 \<Longrightarrow> predecessors ! z = []"
    proof -
      fix z assume "z \<in> set ?r0"
      then have "z < length predecessors" "map set predecessors ! z = {}" by simp_all
      then show "predecessors ! z = []" by simp
    qed
    from em[OF x] em[OF y] l show "entered_before predecessors [] x y"
      by (simp add: entered_before_def entered_def)
  qed
qed

lemma entered_before_asym:
  "entered_before predecessors emitted a b \<Longrightarrow> \<not> entered_before predecessors emitted b a"
  by (auto simp: entered_before_def)

lemma preferred_asym:
  "preferred predecessors rule emitted a b \<Longrightarrow> \<not> preferred predecessors rule emitted b a"
  using entered_before_asym[of predecessors emitted a b]
  by (auto simp: preferred_def)

lemma selects_unique:
  assumes a: "selects predecessors rule res" and b: "selects predecessors rule res'"
  shows "res' = res"
proof -
  let ?n = "length predecessors"
  from a b have la: "length res = ?n" and lb: "length res' = ?n" by (simp_all add: selects_def)
  from a have sa: "\<And>k. k < ?n \<Longrightarrow> ready_at predecessors (take k res) (res ! k)"
    and pa: "\<And>k j. k < ?n \<Longrightarrow> ready_at predecessors (take k res) j \<Longrightarrow>
               j = res ! k \<or> preferred predecessors rule (take k res) (res ! k) j"
    by (simp_all add: selects_def sel_prefix_def)
  from b have sb: "\<And>k. k < ?n \<Longrightarrow> ready_at predecessors (take k res') (res' ! k)"
    and pb: "\<And>k j. k < ?n \<Longrightarrow> ready_at predecessors (take k res') j \<Longrightarrow>
               j = res' ! k \<or> preferred predecessors rule (take k res') (res' ! k) j"
    by (simp_all add: selects_def sel_prefix_def)
  have "k \<le> ?n \<Longrightarrow> take k res' = take k res" for k
  proof (induction k)
    case 0
    then show ?case by simp
  next
    case (Suc k)
    then have k: "k < ?n" and e: "take k res' = take k res" by simp_all
    from sb[OF k] have rb: "ready_at predecessors (take k res) (res' ! k)" unfolding e .
    from sa[OF k] have ra: "ready_at predecessors (take k res') (res ! k)" unfolding e .
    from pa[OF k rb] pb[OF k ra] preferred_asym[of predecessors rule "take k res" "res ! k" "res' ! k"]
    have "res' ! k = res ! k" unfolding e by auto
    with e k la lb show ?case by (simp add: take_Suc_conv_app_nth)
  qed
  from this[of ?n] la lb show ?thesis by simp
qed

text \<open>
  Claim C8: for an acyclic predecessor structure and any key function, \<^verbatim>\<open>min_rule\<close>
  returns an order in which, at every step, the emitted activity is a ready activity with
  the minimal key, and among the ready activities of that key the one that entered the
  ready list first. This rule leaves no choice: the order returned is the only order that
  follows it.
\<close>

theorem min_rule_selection:
  assumes "preds_exist predecessors" and "acyclic (pred_rel predecessors)"
  shows "\<exists>res. min_rule (ActivityListSampler predecessors) rule = Some (Inr res)
           \<and> selects predecessors rule res
           \<and> (\<forall>res'. selects predecessors rule res' \<longrightarrow> res' = res)"
proof -
  have "sel_prefix predecessors rule []" by (simp add: sel_prefix_def)
  from gen_loop_selects[OF assms gen_init_inv gen_init_sorted this, of "()"]
  obtain res r' where
    g: "gen_loop (\<lambda>r x. (min_key rule x, r)) (successors_by_predecessors predecessors) ()
          [] (map set predecessors)
          (filter (\<lambda>i. map set predecessors ! i = {}) [0..<length predecessors]) = Some (Inr res, r')"
    and s: "selects predecessors rule res"
    by blast
  from g have "min_rule (ActivityListSampler predecessors) rule = Some (Inr res)"
    by (simp add: min_rule_def gen_def ActivityListSampler_def Let_def)
  with s selects_unique[OF s] show ?thesis by blast
qed

lemma example_tie_preds_exist: "preds_exist [[], [2], [0], [0], [1, 3]]"
  by (simp add: preds_exist_def less_Suc_eq numeral_eq_Suc nth_Cons')

lemma example_tie_acyclic: "acyclic (pred_rel [[], [2], [0], [0], [1, 3]])"
proof (rule acyclicI_order[where f = "\<lambda>i. [10, 7, 9, 9, 5 :: nat] ! i"])
  fix a b :: nat
  assume "(a, b) \<in> pred_rel [[], [2], [0], [0], [1, 3]]"
  then have "b < 5" and "a \<in> set ([[], [2], [0], [0], [1, 3]] ! b)" by (simp_all add: pred_rel_def)
  then show "[10, 7, 9, 9, 5 :: nat] ! b < [10, 7, 9, 9, 5] ! a"
    by (auto simp: less_Suc_eq numeral_eq_Suc nth_Cons')
qed

theorem min_rule_selection_witness:
  "min_rule (ActivityListSampler [[], [2], [0], [0], [1, 3]]) (\<lambda>i. 0 :: int) = Some (Inr [0, 2, 3, 1, 4])
   \<and> [0, 2, 3, 1, 4 :: nat] ! 2 = 3
   \<and> entered [[], [2], [0], [0], [1, 3]] [0, 2] 3 = 1
   \<and> entered [[], [2], [0], [0], [1, 3]] [0, 2] 1 = 2"
proof -
  from min_rule_selection[OF example_tie_preds_exist example_tie_acyclic, of "\<lambda>i. 0 :: int"]
  obtain res where m: "min_rule (ActivityListSampler [[], [2], [0], [0], [1, 3]]) (\<lambda>i. 0 :: int) = Some (Inr res)"
    and s: "selects [[], [2], [0], [0], [1, 3]] (\<lambda>i. 0 :: int) res"
    by (elim exE conjE) (rule that; assumption)
  have ev: "min_rule (ActivityListSampler [[], [2], [0], [0], [1, 3]]) (\<lambda>i. 0 :: int) = Some (Inr [0, 2, 3, 1, 4])"
    by code_simp
  have e1: "entered [[], [2], [0], [0], [1, 3]] [0, 2] 3 = 1"
    by (simp add: entered_def pos_def)
  have e2: "entered [[], [2], [0], [0], [1, 3]] [0, 2] 1 = 2"
    by (simp add: entered_def pos_def)
  from m ev e1 e2 show ?thesis by simp
qed

lemma es_max_cong:
  "(\<And>p. p \<in> set ps \<Longrightarrow> est' ! p = est ! p) \<Longrightarrow> es_max duration est' ps = es_max duration est ps"
  unfolding es_max_def by (rule arg_cong[where f = Max]) (rule image_cong, simp_all)

lemma es_max_single: "es_max duration est [p] = est ! p + duration ! p"
  by (simp add: es_max_def)

lemma es_max_snoc:
  "ps \<noteq> [] \<Longrightarrow> es_max duration est (ps @ [p]) = max (es_max duration est ps) (est ! p + duration ! p)"
proof -
  assume "ps \<noteq> []"
  then have ne: "(\<lambda>p. est ! p + duration ! p) ` set ps \<noteq> {}" by simp
  have "es_max duration est (ps @ [p])
          = Max (insert (est ! p + duration ! p) ((\<lambda>p. est ! p + duration ! p) ` set ps))"
    by (simp add: es_max_def)
  also have "\<dots> = max (est ! p + duration ! p) (Max ((\<lambda>p. est ! p + duration ! p) ` set ps))"
    using ne by (simp add: Max_insert)
  finally show ?thesis by (simp add: es_max_def max.commute)
qed

lemma rec_es_cong:
  assumes "est' ! j = est ! j" and "\<And>p. p \<in> set (predecessors ! j) \<Longrightarrow> est' ! p = est ! p"
  shows "rec_es duration predecessors est' j = rec_es duration predecessors est j"
  using assms es_max_cong[of "predecessors ! j" est' est duration] by (simp add: rec_es_def)

lemma es_gen_ok:
  assumes IH: "\<And>p est S. es_inv duration predecessors est S \<Longrightarrow> p < length predecessors \<Longrightarrow>
                 rk p < d \<Longrightarrow> es_post duration predecessors est S p (calc_es duration predecessors d p est)"
    and len: "length duration = length predecessors"
  shows "es_inv duration predecessors est S \<Longrightarrow>
         (\<And>p. p \<in> set ps \<Longrightarrow> p < length predecessors \<and> rk p < d) \<Longrightarrow>
         set done \<subseteq> S \<Longrightarrow>
         m = (if done = [] then None else Some (es_max duration est done)) \<Longrightarrow>
         \<exists>est' S'. es_gen duration predecessors d ps m est
                      = Inr ((if done @ ps = [] then None else Some (es_max duration est' (done @ ps))), est')
            \<and> es_inv duration predecessors est' S' \<and> S \<subseteq> S' \<and> set ps \<subseteq> S'
            \<and> (\<forall>j\<in>S. est' ! j = est ! j)"
proof (induction ps arbitrary: est S "done" m)
  case Nil
  then show ?case by auto
next
  case (Cons p ps)
  from Cons.prems(2)[of p] have p: "p < length predecessors" "rk p < d" by simp_all
  from IH[OF Cons.prems(1) p] obtain v est1 S1 where
    c: "calc_es duration predecessors d p est = Inr (v, est1)" and v: "v = est1 ! p"
    and inv1: "es_inv duration predecessors est1 S1" and sub1: "S \<subseteq> S1" and pS1: "p \<in> S1"
    and ag1: "\<forall>j\<in>S. est1 ! j = est ! j"
    by (auto simp: es_post_def split: sum.splits prod.splits)
  let ?m' = "Some (case m of None \<Rightarrow> v + duration ! p | Some a \<Rightarrow> max a (v + duration ! p))"
  have m': "?m' = (if done @ [p] = [] then None else Some (es_max duration est1 (done @ [p])))"
  proof (cases "done = []")
    case True
    with Cons.prems(4) v show ?thesis by (simp add: es_max_single)
  next
    case False
    have "es_max duration est1 done = es_max duration est done"
      by (rule es_max_cong) (use ag1 Cons.prems(3) in blast)
    with False Cons.prems(4) v show ?thesis by (simp add: es_max_snoc)
  qed
  have d1: "set (done @ [p]) \<subseteq> S1" using Cons.prems(3) sub1 pS1 by auto
  from Cons.IH[OF inv1 _ d1 m'] Cons.prems(2) obtain est' S' where
    g: "es_gen duration predecessors d ps ?m' est1
          = Inr ((if (done @ [p]) @ ps = [] then None else Some (es_max duration est' ((done @ [p]) @ ps))), est')"
    and inv': "es_inv duration predecessors est' S'" and sub': "S1 \<subseteq> S'" and ps': "set ps \<subseteq> S'"
    and ag': "\<forall>j\<in>S1. est' ! j = est1 ! j"
    by (metis list.set_intros(2))
  have "es_gen duration predecessors d (p # ps) m est
          = Inr ((if done @ p # ps = [] then None else Some (es_max duration est' (done @ p # ps))), est')"
    using c p(1) len g by simp
  moreover have "S \<subseteq> S'" using sub1 sub' by blast
  moreover have "set (p # ps) \<subseteq> S'" using pS1 sub' ps' by auto
  moreover have "\<forall>j\<in>S. est' ! j = est ! j" using ag1 ag' sub1 by auto
  ultimately show ?case using inv' by blast
qed

lemma calc_es_ok:
  assumes len: "length duration = length predecessors"
    and dec: "\<And>i p. i < length predecessors \<Longrightarrow> p \<in> set (predecessors ! i) \<Longrightarrow>
                p < length predecessors \<and> rk p < rk i"
  shows "es_inv duration predecessors est S \<Longrightarrow> i < length predecessors \<Longrightarrow> rk i < d \<Longrightarrow>
         es_post duration predecessors est S i (calc_es duration predecessors d i est)"
proof (induction d arbitrary: i est S)
  case 0
  then show ?case by simp
next
  case (Suc d)
  let ?n = "length predecessors"
  note inv = Suc.prems(1) and i = Suc.prems(2)
  from inv have le: "length est = ?n" and sub: "S \<subseteq> {0..<?n}"
    and cl: "\<And>j. j \<in> S \<Longrightarrow> set (predecessors ! j) \<subseteq> S"
    and rc: "\<And>j. j \<in> S \<Longrightarrow> rec_es duration predecessors est j"
    and zs: "\<And>j. j < ?n \<Longrightarrow> predecessors ! j = [] \<Longrightarrow> est ! j = 0"
    by (simp_all add: es_inv_def)
  show ?case
  proof (cases "predecessors ! i = []")
    case True
    have c: "calc_es duration predecessors (Suc d) i est = Inr (est ! i, est)"
      using True i le by simp
    have "rec_es duration predecessors est i" using True zs[OF i True] by (simp add: rec_es_def)
    then have "es_inv duration predecessors est (insert i S)"
      using inv i True unfolding es_inv_def by auto
    then show ?thesis unfolding c es_post_def by auto
  next
    case False
    let ?ps = "predecessors ! i"
    have psb: "\<And>p. p \<in> set ?ps \<Longrightarrow> p < ?n \<and> rk p < d"
    proof -
      fix p assume "p \<in> set ?ps"
      from dec[OF i this] Suc.prems(3) show "p < ?n \<and> rk p < d" by simp
    qed
    have ini: "i \<notin> set ?ps" using dec[OF i, of i] by auto
    have "\<exists>est' S'. es_gen duration predecessors d ?ps None est
                      = Inr ((if [] @ ?ps = [] then None else Some (es_max duration est' ([] @ ?ps))), est')
            \<and> es_inv duration predecessors est' S' \<and> S \<subseteq> S' \<and> set ?ps \<subseteq> S'
            \<and> (\<forall>j\<in>S. est' ! j = est ! j)"
      by (rule es_gen_ok[where rk = rk, OF Suc.IH len inv psb]) simp_all
    then obtain est1 S1 where
      g: "es_gen duration predecessors d ?ps None est = Inr (Some (es_max duration est1 ?ps), est1)"
      and inv1: "es_inv duration predecessors est1 S1" and sub1: "S \<subseteq> S1" and ps1: "set ?ps \<subseteq> S1"
      and ag1: "\<forall>j\<in>S. est1 ! j = est ! j"
      using False by auto
    from inv1 have le1: "length est1 = ?n" and s1: "S1 \<subseteq> {0..<?n}"
      and cl1: "\<And>j. j \<in> S1 \<Longrightarrow> set (predecessors ! j) \<subseteq> S1"
      and rc1: "\<And>j. j \<in> S1 \<Longrightarrow> rec_es duration predecessors est1 j"
      and zs1: "\<And>j. j < ?n \<Longrightarrow> predecessors ! j = [] \<Longrightarrow> est1 ! j = 0"
      by (simp_all add: es_inv_def)
    let ?M = "es_max duration est1 ?ps"
    let ?est' = "est1[i := ?M]"
    have c: "calc_es duration predecessors (Suc d) i est = Inr (?est' ! i, ?est')"
      using False i le1 g by simp
    have same: "i \<in> S1 \<Longrightarrow> ?est' = est1"
    proof -
      assume "i \<in> S1"
      from rc1[OF this] False have "est1 ! i = ?M" by (simp add: rec_es_def)
      then show "?est' = est1" by (simp add: list_update_same_conv le1 i)
    qed
    have other: "\<And>j. j \<noteq> i \<Longrightarrow> ?est' ! j = est1 ! j" by simp
    have atI: "?est' ! i = ?M" using i le1 by simp
    have recI: "rec_es duration predecessors ?est' i"
    proof -
      have "es_max duration ?est' ?ps = ?M"
        by (rule es_max_cong) (use ini other in metis)
      with atI False show ?thesis by (simp add: rec_es_def)
    qed
    have recJ: "\<And>j. j \<in> S1 \<Longrightarrow> rec_es duration predecessors ?est' j"
    proof -
      fix j assume j: "j \<in> S1"
      show "rec_es duration predecessors ?est' j"
      proof (cases "i \<in> S1")
        case True
        with same rc1[OF j] show ?thesis by simp
      next
        case False
        with j have ji: "j \<noteq> i" by blast
        from False cl1[OF j] have "i \<notin> set (predecessors ! j)" by blast
        then have "\<And>p. p \<in> set (predecessors ! j) \<Longrightarrow> ?est' ! p = est1 ! p"
          using other by metis
        from rec_es_cong[OF other[OF ji] this] rc1[OF j] show ?thesis by simp
      qed
    qed
    have inv': "es_inv duration predecessors ?est' (insert i S1)"
      unfolding es_inv_def
    proof (intro conjI ballI allI impI)
      show "length ?est' = ?n" using le1 by simp
      show "insert i S1 \<subseteq> {0..<?n}" using s1 i by simp
    next
      fix j assume "j \<in> insert i S1"
      then show "set (predecessors ! j) \<subseteq> insert i S1" using ps1 cl1 by blast
    next
      fix j assume "j \<in> insert i S1"
      then show "rec_es duration predecessors ?est' j" using recI recJ by blast
    next
      fix j assume j: "j < ?n" and e: "predecessors ! j = []"
      with False have "j \<noteq> i" by auto
      with zs1[OF j e] show "?est' ! j = 0" by simp
    qed
    have ag': "\<forall>j\<in>S. ?est' ! j = est ! j"
    proof
      fix j assume j: "j \<in> S"
      show "?est' ! j = est ! j"
      proof (cases "i \<in> S1")
        case True
        with same ag1 j show ?thesis by simp
      next
        case False
        with j sub1 have "j \<noteq> i" by blast
        with ag1 j show ?thesis by simp
      qed
    qed
    from inv' ag' sub1 show ?thesis unfolding c es_post_def by auto
  qed
qed

lemma acyclic_rank:
  assumes sub: "r \<subseteq> {0..<n} \<times> {0..<n}" and ac: "acyclic r"
  shows "\<exists>rk :: nat \<Rightarrow> nat. (\<forall>a b. (a, b) \<in> r \<longrightarrow> rk a < rk b) \<and> (\<forall>i<n. rk i < n)"
proof -
  define A where "A i = {p. (p, i) \<in> r\<^sup>+}" for i
  have dom: "\<And>p i. (p, i) \<in> r\<^sup>+ \<Longrightarrow> p < n"
  proof -
    fix p i assume "(p, i) \<in> r\<^sup>+"
    then obtain q where "(p, q) \<in> r" by (meson converse_tranclE)
    with sub show "p < n" by auto
  qed
  have An: "\<And>i. A i \<subseteq> {0..<n}" using dom by (auto simp: A_def)
  then have fin: "\<And>i. finite (A i)" by (meson finite_atLeastLessThan finite_subset)
  have irr: "\<And>i. i \<notin> A i" using ac by (auto simp: A_def acyclic_def)
  have edge: "\<And>a b. (a, b) \<in> r \<Longrightarrow> card (A a) < card (A b)"
  proof -
    fix a b assume e: "(a, b) \<in> r"
    have "insert a (A a) \<subseteq> A b"
    proof
      fix x assume "x \<in> insert a (A a)"
      then consider "x = a" | "(x, a) \<in> r\<^sup>+" by (auto simp: A_def)
      then show "x \<in> A b"
      proof cases
        case 1
        with e show ?thesis by (simp add: A_def)
      next
        case 2
        from 2 e have "(x, b) \<in> r\<^sup>+" by (rule trancl_into_trancl)
        then show ?thesis by (simp add: A_def)
      qed
    qed
    then have "card (insert a (A a)) \<le> card (A b)" by (rule card_mono[OF fin])
    moreover have "card (insert a (A a)) = Suc (card (A a))" using fin irr by simp
    ultimately show "card (A a) < card (A b)" by simp
  qed
  have bound: "\<And>i. i < n \<Longrightarrow> card (A i) < n"
  proof -
    fix i assume i: "i < n"
    have "A i \<subseteq> {0..<n} - {i}" using An irr by blast
    then have "card (A i) \<le> card ({0..<n} - {i})" by (rule card_mono[rotated]) simp
    also have "\<dots> = n - 1" using i by simp
    finally show "card (A i) < n" using i by simp
  qed
  from edge bound show ?thesis by (intro exI[of _ "\<lambda>i. card (A i)"]) blast
qed

lemma pred_rel_subset:
  "preds_exist predecessors \<Longrightarrow>
   pred_rel predecessors \<subseteq> {0..<length predecessors} \<times> {0..<length predecessors}"
  by (auto simp: pred_rel_def preds_exist_def)

lemma sink_closed_all:
  assumes pe: "preds_exist predecessors" and ac: "acyclic (pred_rel predecessors)"
    and ss: "single_sink predecessors"
    and cl: "\<And>j. j \<in> S \<Longrightarrow> set (predecessors ! j) \<subseteq> S"
    and top: "length predecessors - 1 \<in> S"
    and j: "j < length predecessors"
  shows "j \<in> S"
proof -
  let ?n = "length predecessors"
  let ?r = "pred_rel predecessors"
  have "finite ?r" using pred_rel_subset[OF pe] by (rule finite_subset) simp
  then have "wf (?r\<inverse>)" using ac by (simp add: finite_acyclic_wf_converse)
  then have "j < ?n \<longrightarrow> j \<in> S"
  proof (induction j rule: wf_induct_rule)
    case (less j)
    show ?case
    proof
      assume j: "j < ?n"
      show "j \<in> S"
      proof (cases "Suc j = ?n")
        case True
        with top show ?thesis by (metis diff_Suc_1)
      next
        case False
        with ss j obtain s where s: "s < ?n" "j \<in> set (predecessors ! s)"
          by (auto simp: single_sink_def)
        then have "(s, j) \<in> ?r\<inverse>" by (simp add: pred_rel_def)
        with less s(1) have "s \<in> S" by blast
        with cl s(2) show ?thesis by blast
      qed
    qed
  qed
  with j show ?thesis by simp
qed

lemma es_final:
  assumes pe: "preds_exist predecessors" and ac: "acyclic (pred_rel predecessors)"
    and len: "length duration = length predecessors" and ne: "0 < length predecessors"
    and ss: "single_sink predecessors" and lim: "length predecessors \<le> limit"
  shows "\<exists>v est. calc_es duration predecessors limit (length duration - 1) (replicate (length duration) 0)
                   = Inr (v, est)
           \<and> length est = length duration
           \<and> (\<forall>i<length duration. rec_es duration predecessors est i)"
proof -
  let ?n = "length predecessors"
  from acyclic_rank[OF pred_rel_subset[OF pe] ac] obtain rk :: "nat \<Rightarrow> nat" where
    rk1: "\<And>a b. (a, b) \<in> pred_rel predecessors \<Longrightarrow> rk a < rk b" and rk2: "\<And>i. i < ?n \<Longrightarrow> rk i < ?n"
    by blast
  have dec: "\<And>i p. i < ?n \<Longrightarrow> p \<in> set (predecessors ! i) \<Longrightarrow> p < ?n \<and> rk p < rk i"
  proof -
    fix i p assume i: "i < ?n" and p: "p \<in> set (predecessors ! i)"
    then have "(p, i) \<in> pred_rel predecessors" by (simp add: pred_rel_def)
    from rk1[OF this] pe i p show "p < ?n \<and> rk p < rk i" by (simp add: preds_exist_def)
  qed
  have inv0: "es_inv duration predecessors (replicate ?n 0) {}"
    by (simp add: es_inv_def)
  have top: "?n - 1 < ?n" using ne by simp
  have "rk (?n - 1) < limit" using rk2[OF top] lim by simp
  from calc_es_ok[where rk = rk, OF len dec inv0 top this]
  obtain v est S where c: "calc_es duration predecessors limit (?n - 1) (replicate ?n 0) = Inr (v, est)"
    and inv: "es_inv duration predecessors est S" and tS: "?n - 1 \<in> S"
    by (auto simp: es_post_def split: sum.splits prod.splits)
  from inv have le: "length est = ?n"
    and cl: "\<And>j. j \<in> S \<Longrightarrow> set (predecessors ! j) \<subseteq> S"
    and rc: "\<And>j. j \<in> S \<Longrightarrow> rec_es duration predecessors est j"
    by (simp_all add: es_inv_def)
  have "\<forall>i<?n. rec_es duration predecessors est i"
    using sink_closed_all[OF pe ac ss cl tS] rc by blast
  with c le show ?thesis by (simp add: len)
qed

lemma lf_min_cong:
  "(\<And>s. s \<in> set ss \<Longrightarrow> lst' ! s = lst ! s) \<Longrightarrow> lf_min duration lst' ss = lf_min duration lst ss"
  unfolding lf_min_def by (rule arg_cong[where f = Min]) (rule image_cong, simp_all)

lemma lf_min_single: "lf_min duration lst [s] = lst ! s - duration ! s"
  by (simp add: lf_min_def)

lemma lf_min_snoc:
  "ss \<noteq> [] \<Longrightarrow> lf_min duration lst (ss @ [s]) = min (lf_min duration lst ss) (lst ! s - duration ! s)"
proof -
  assume "ss \<noteq> []"
  then have ne: "(\<lambda>s. lst ! s - duration ! s) ` set ss \<noteq> {}" by simp
  have "lf_min duration lst (ss @ [s])
          = Min (insert (lst ! s - duration ! s) ((\<lambda>s. lst ! s - duration ! s) ` set ss))"
    by (simp add: lf_min_def)
  also have "\<dots> = min (lst ! s - duration ! s) (Min ((\<lambda>s. lst ! s - duration ! s) ` set ss))"
    using ne by (simp add: Min_insert)
  finally show ?thesis by (simp add: lf_min_def min.commute)
qed

lemma rec_lf_cong:
  assumes "lst' ! j = lst ! j"
    and "\<And>s. Suc j \<noteq> length duration \<Longrightarrow> s \<in> set (successors ! j) \<Longrightarrow> lst' ! s = lst ! s"
  shows "rec_lf duration successors est lst' j = rec_lf duration successors est lst j"
proof (cases "Suc j = length duration")
  case True
  with assms(1) show ?thesis by (simp add: rec_lf_def)
next
  case False
  with assms lf_min_cong[of "successors ! j" lst' lst duration] show ?thesis
    by (simp add: rec_lf_def)
qed

lemma lf_gen_ok:
  assumes IH: "\<And>s lst S. lf_inv duration successors est lst S \<Longrightarrow> s < length duration \<Longrightarrow>
                 rk s < d \<Longrightarrow> lf_post duration successors est lst S s (calc_lf duration successors est d s lst)"
  shows "lf_inv duration successors est lst S \<Longrightarrow>
         (\<And>s. s \<in> set ss \<Longrightarrow> s < length duration \<and> rk s < d) \<Longrightarrow>
         set done \<subseteq> S \<Longrightarrow>
         m = (if done = [] then None else Some (lf_min duration lst done)) \<Longrightarrow>
         \<exists>lst' S'. lf_gen duration successors est d ss m lst
                      = Inr ((if done @ ss = [] then None else Some (lf_min duration lst' (done @ ss))), lst')
            \<and> lf_inv duration successors est lst' S' \<and> S \<subseteq> S' \<and> set ss \<subseteq> S'
            \<and> (\<forall>j\<in>S. lst' ! j = lst ! j)"
proof (induction ss arbitrary: lst S "done" m)
  case Nil
  then show ?case by auto
next
  case (Cons s ss)
  from Cons.prems(2)[of s] have s: "s < length duration" "rk s < d" by simp_all
  from IH[OF Cons.prems(1) s] obtain v lst1 S1 where
    c: "calc_lf duration successors est d s lst = Inr (v, lst1)" and v: "v = lst1 ! s"
    and inv1: "lf_inv duration successors est lst1 S1" and sub1: "S \<subseteq> S1" and sS1: "s \<in> S1"
    and ag1: "\<forall>j\<in>S. lst1 ! j = lst ! j"
    by (auto simp: lf_post_def split: sum.splits prod.splits)
  let ?m' = "Some (case m of None \<Rightarrow> v - duration ! s | Some a \<Rightarrow> min a (v - duration ! s))"
  have m': "?m' = (if done @ [s] = [] then None else Some (lf_min duration lst1 (done @ [s])))"
  proof (cases "done = []")
    case True
    with Cons.prems(4) v show ?thesis by (simp add: lf_min_single)
  next
    case False
    have "lf_min duration lst1 done = lf_min duration lst done"
      by (rule lf_min_cong) (use ag1 Cons.prems(3) in blast)
    with False Cons.prems(4) v show ?thesis by (simp add: lf_min_snoc)
  qed
  have d1: "set (done @ [s]) \<subseteq> S1" using Cons.prems(3) sub1 sS1 by auto
  from Cons.IH[OF inv1 _ d1 m'] Cons.prems(2) obtain lst' S' where
    g: "lf_gen duration successors est d ss ?m' lst1
          = Inr ((if (done @ [s]) @ ss = [] then None else Some (lf_min duration lst' ((done @ [s]) @ ss))), lst')"
    and inv': "lf_inv duration successors est lst' S'" and sub': "S1 \<subseteq> S'" and ss': "set ss \<subseteq> S'"
    and ag': "\<forall>j\<in>S1. lst' ! j = lst1 ! j"
    by (metis list.set_intros(2))
  have "lf_gen duration successors est d (s # ss) m lst
          = Inr ((if done @ s # ss = [] then None else Some (lf_min duration lst' (done @ s # ss))), lst')"
    using c s(1) g by simp
  moreover have "S \<subseteq> S'" using sub1 sub' by blast
  moreover have "set (s # ss) \<subseteq> S'" using sS1 sub' ss' by auto
  moreover have "\<forall>j\<in>S. lst' ! j = lst ! j" using ag1 ag' sub1 by auto
  ultimately show ?case using inv' by blast
qed

lemma lf_update:
  assumes inv1: "lf_inv duration successors est lst1 S1" and i: "i < length duration"
    and nonsink: "Suc i \<noteq> length duration \<Longrightarrow>
                    set (successors ! i) \<subseteq> S1 \<and> i \<notin> set (successors ! i) \<and> successors ! i \<noteq> []"
    and M: "M = (if Suc i = length duration then est ! i else lf_min duration lst1 (successors ! i))"
  shows "lf_inv duration successors est (lst1[i := M]) (insert i S1)"
    and "\<forall>j\<in>S1. lst1[i := M] ! j = lst1 ! j"
proof -
  let ?n = "length duration"
  let ?lst' = "lst1[i := M]"
  from inv1 have le1: "length lst1 = ?n" and s1: "S1 \<subseteq> {0..<?n}"
    and cl1: "\<And>j. j \<in> S1 \<Longrightarrow> Suc j \<noteq> ?n \<Longrightarrow> set (successors ! j) \<subseteq> S1"
    and rc1: "\<And>j. j \<in> S1 \<Longrightarrow> rec_lf duration successors est lst1 j"
    and zs1: "\<And>j. j < ?n \<Longrightarrow> Suc j \<noteq> ?n \<Longrightarrow> successors ! j = [] \<Longrightarrow> lst1 ! j = 0"
    by (simp_all add: lf_inv_def)
  have same: "i \<in> S1 \<Longrightarrow> ?lst' = lst1"
  proof -
    assume iS: "i \<in> S1"
    have "lst1 ! i = M"
    proof (cases "Suc i = ?n")
      case True
      with rc1[OF iS] M show ?thesis by (simp add: rec_lf_def)
    next
      case False
      with rc1[OF iS] M nonsink show ?thesis by (simp add: rec_lf_def)
    qed
    then show "?lst' = lst1" by (simp add: list_update_same_conv le1 i)
  qed
  have other: "\<And>j. j \<noteq> i \<Longrightarrow> ?lst' ! j = lst1 ! j" by simp
  have atI: "?lst' ! i = M" using i le1 by simp
  have recI: "rec_lf duration successors est ?lst' i"
  proof (cases "Suc i = ?n")
    case True
    with atI M show ?thesis by (simp add: rec_lf_def)
  next
    case False
    from nonsink[OF False] have ini: "i \<notin> set (successors ! i)" and ne: "successors ! i \<noteq> []"
      by simp_all
    have "lf_min duration ?lst' (successors ! i) = lf_min duration lst1 (successors ! i)"
      by (rule lf_min_cong) (use ini other in metis)
    with atI M False ne show ?thesis by (simp add: rec_lf_def)
  qed
  have recJ: "\<And>j. j \<in> S1 \<Longrightarrow> rec_lf duration successors est ?lst' j"
  proof -
    fix j assume j: "j \<in> S1"
    show "rec_lf duration successors est ?lst' j"
    proof (cases "i \<in> S1")
      case True
      with same rc1[OF j] show ?thesis by simp
    next
      case False
      with j have ji: "j \<noteq> i" by blast
      have "\<And>s. Suc j \<noteq> ?n \<Longrightarrow> s \<in> set (successors ! j) \<Longrightarrow> ?lst' ! s = lst1 ! s"
      proof -
        fix s assume "Suc j \<noteq> ?n" and s: "s \<in> set (successors ! j)"
        with cl1[OF j] have "s \<in> S1" by blast
        with False have "s \<noteq> i" by blast
        then show "?lst' ! s = lst1 ! s" by simp
      qed
      from rec_lf_cong[OF other[OF ji] this] rc1[OF j] show ?thesis by simp
    qed
  qed
  show "lf_inv duration successors est ?lst' (insert i S1)"
    unfolding lf_inv_def
  proof (intro conjI ballI allI impI)
    show "length ?lst' = ?n" using le1 by simp
    show "insert i S1 \<subseteq> {0..<?n}" using s1 i by simp
  next
    fix j assume "j \<in> insert i S1" and "Suc j \<noteq> ?n"
    then show "set (successors ! j) \<subseteq> insert i S1" using nonsink cl1 by blast
  next
    fix j assume "j \<in> insert i S1"
    then show "rec_lf duration successors est ?lst' j" using recI recJ by blast
  next
    fix j assume j: "j < ?n" and ns: "Suc j \<noteq> ?n" and e: "successors ! j = []"
    with nonsink have "j \<noteq> i" by auto
    with zs1[OF j ns e] show "?lst' ! j = 0" by simp
  qed
  show "\<forall>j\<in>S1. ?lst' ! j = lst1 ! j"
  proof
    fix j assume j: "j \<in> S1"
    show "?lst' ! j = lst1 ! j"
    proof (cases "i \<in> S1")
      case True
      with same show ?thesis by simp
    next
      case False
      with j have "j \<noteq> i" by blast
      then show ?thesis by simp
    qed
  qed
qed

lemma calc_lf_ok:
  assumes len: "length successors = length duration" "length est = length duration"
    and dec: "\<And>i s. i < length duration \<Longrightarrow> Suc i \<noteq> length duration \<Longrightarrow> s \<in> set (successors ! i) \<Longrightarrow>
                s < length duration \<and> rk s < rk i"
  shows "lf_inv duration successors est lst S \<Longrightarrow> i < length duration \<Longrightarrow> rk i < d \<Longrightarrow>
         lf_post duration successors est lst S i (calc_lf duration successors est d i lst)"
proof (induction d arbitrary: i lst S)
  case 0
  then show ?case by simp
next
  case (Suc d)
  let ?n = "length duration"
  note inv = Suc.prems(1) and i = Suc.prems(2)
  from inv have le: "length lst = ?n"
    and zs: "\<And>j. j < ?n \<Longrightarrow> Suc j \<noteq> ?n \<Longrightarrow> successors ! j = [] \<Longrightarrow> lst ! j = 0"
    by (simp_all add: lf_inv_def)
  show ?case
  proof (cases "Suc i = ?n")
    case True
    have c: "calc_lf duration successors est (Suc d) i lst = Inr (lst[i := est ! i] ! i, lst[i := est ! i])"
      using True i le len by simp
    from lf_update[OF inv i, of "est ! i"] True
    have "lf_inv duration successors est (lst[i := est ! i]) (insert i S)"
      and "\<forall>j\<in>S. lst[i := est ! i] ! j = lst ! j"
      by simp_all
    then show ?thesis unfolding c lf_post_def by auto
  next
    case False
    note ns = this
    show ?thesis
    proof (cases "successors ! i = []")
      case True
      have c: "calc_lf duration successors est (Suc d) i lst = Inr (lst ! i, lst)"
        using True ns i le len by simp
      have "rec_lf duration successors est lst i" using True ns zs[OF i ns True] by (simp add: rec_lf_def)
      then have "lf_inv duration successors est lst (insert i S)"
        using inv i True unfolding lf_inv_def by auto
      then show ?thesis unfolding c lf_post_def by auto
    next
      case False
      let ?ss = "successors ! i"
      have ssb: "\<And>s. s \<in> set ?ss \<Longrightarrow> s < ?n \<and> rk s < d"
      proof -
        fix s assume "s \<in> set ?ss"
        from dec[OF i ns this] Suc.prems(3) show "s < ?n \<and> rk s < d" by simp
      qed
      have ini: "i \<notin> set ?ss" using dec[OF i ns, of i] by auto
      have "\<exists>lst' S'. lf_gen duration successors est d ?ss None lst
                      = Inr ((if [] @ ?ss = [] then None else Some (lf_min duration lst' ([] @ ?ss))), lst')
            \<and> lf_inv duration successors est lst' S' \<and> S \<subseteq> S' \<and> set ?ss \<subseteq> S'
            \<and> (\<forall>j\<in>S. lst' ! j = lst ! j)"
        by (rule lf_gen_ok[where rk = rk, OF Suc.IH inv ssb]) simp_all
      then obtain lst1 S1 where
        g: "lf_gen duration successors est d ?ss None lst = Inr (Some (lf_min duration lst1 ?ss), lst1)"
        and inv1: "lf_inv duration successors est lst1 S1" and sub1: "S \<subseteq> S1" and ss1: "set ?ss \<subseteq> S1"
        and ag1: "\<forall>j\<in>S. lst1 ! j = lst ! j"
        using False by auto
      from inv1 have le1: "length lst1 = ?n" by (simp add: lf_inv_def)
      let ?M = "lf_min duration lst1 ?ss"
      have c: "calc_lf duration successors est (Suc d) i lst = Inr (lst1[i := ?M] ! i, lst1[i := ?M])"
        using False ns i le1 len g by simp
      from lf_update[OF inv1 i, of ?M] ns ss1 ini False
      have a: "lf_inv duration successors est (lst1[i := ?M]) (insert i S1)"
        and b: "\<forall>j\<in>S1. lst1[i := ?M] ! j = lst1 ! j"
        by simp_all
      have "\<forall>j\<in>S. lst1[i := ?M] ! j = lst ! j"
      proof
        fix j assume j: "j \<in> S"
        with sub1 have "j \<in> S1" by blast
        with b ag1 j show "lst1[i := ?M] ! j = lst ! j" by simp
      qed
      moreover have "S \<subseteq> insert i S1" using sub1 by blast
      ultimately have "\<exists>S'. lf_inv duration successors est (lst1[i := ?M]) S' \<and> S \<subseteq> S' \<and> i \<in> S' \<and>
                (\<forall>j\<in>S. lst1[i := ?M] ! j = lst ! j)"
        using a by blast
      then show ?thesis unfolding c lf_post_def by simp
    qed
  qed
qed

lemma successors_set:
  "i < length predecessors \<Longrightarrow>
   set (successors_by_predecessors predecessors ! i)
     = {j. j < length predecessors \<and> i \<in> set (predecessors ! j)}"
  by (auto simp: successors_nth)

lemma critical_times_result:
  assumes pe: "preds_exist predecessors" and ac: "acyclic (pred_rel predecessors)"
    and ss: "single_sink predecessors"
    and len: "length duration = length predecessors" and ne: "0 < length predecessors"
    and sc: "successors = None \<or> successors = Some (successors_by_predecessors predecessors)"
    and lim: "length predecessors \<le> limit"
  shows "\<exists>est lst S. calculate_critical_times limit duration predecessors successors = Inr (est, lst)
           \<and> length est = length duration
           \<and> (\<forall>i<length duration. rec_es duration predecessors est i)
           \<and> lf_inv duration (successors_by_predecessors predecessors) est lst S \<and> 0 \<in> S"
proof -
  let ?n = "length predecessors"
  let ?sc = "successors_by_predecessors predecessors"
  from es_final[OF pe ac len ne ss lim] obtain v est where
    c: "calc_es duration predecessors limit (length duration - 1) (replicate (length duration) 0) = Inr (v, est)"
    and le: "length est = length duration"
    and rc: "\<forall>i<length duration. rec_es duration predecessors est i"
    by blast
  have sub: "(pred_rel predecessors)\<inverse> \<subseteq> {0..<?n} \<times> {0..<?n}"
    using pred_rel_subset[OF pe] by auto
  have "acyclic ((pred_rel predecessors)\<inverse>)" using ac by simp
  from acyclic_rank[OF sub this] obtain rk :: "nat \<Rightarrow> nat" where
    rk1: "\<And>a b. (a, b) \<in> (pred_rel predecessors)\<inverse> \<Longrightarrow> rk a < rk b"
    and rk2: "\<And>i. i < ?n \<Longrightarrow> rk i < ?n"
    by blast
  have dec: "\<And>i s. i < length duration \<Longrightarrow> Suc i \<noteq> length duration \<Longrightarrow> s \<in> set (?sc ! i) \<Longrightarrow>
                s < length duration \<and> rk s < rk i"
  proof -
    fix i s assume i: "i < length duration" and s: "s \<in> set (?sc ! i)"
    with len have "s < ?n" "i \<in> set (predecessors ! s)" by (simp_all add: successors_set)
    then have "(s, i) \<in> (pred_rel predecessors)\<inverse>" by (simp add: pred_rel_def)
    from rk1[OF this] \<open>s < ?n\<close> len show "s < length duration \<and> rk s < rk i" by simp
  qed
  have inv0: "lf_inv duration ?sc est (replicate (length duration) 0) {}"
    by (simp add: lf_inv_def)
  have z: "0 < length duration" using ne len by simp
  have "rk 0 < limit" using rk2[OF ne] lim by simp
  from calc_lf_ok[where rk = rk, OF _ le dec inv0 z this]
  obtain w lst S where l: "calc_lf duration ?sc est limit 0 (replicate (length duration) 0) = Inr (w, lst)"
    and inv: "lf_inv duration ?sc est lst S" and zS: "0 \<in> S"
    by (auto simp: lf_post_def successors_length len split: sum.splits prod.splits)
  have scne: "?sc \<noteq> []" using ne successors_length[of predecessors] by auto
  have "calculate_critical_times limit duration predecessors successors = Inr (est, lst)"
    using sc
  proof
    assume "successors = None"
    with c l z show ?thesis by (simp add: calculate_critical_times_def Let_def)
  next
    assume "successors = Some ?sc"
    with c l z scne show ?thesis by (simp add: calculate_critical_times_def Let_def)
  qed
  with le rc inv zS show ?thesis by blast
qed

text \<open>
  Claim C6: on an acyclic network with the single sink \<open>n - 1\<close>, the first vector returned
  by \<^verbatim>\<open>calculate_critical_times\<close> satisfies the earliest-start recurrence at every
  activity. The recursion depth available must cover the number of activities.
\<close>

theorem earliest_start_recurrence:
  assumes "preds_exist predecessors" and "acyclic (pred_rel predecessors)"
    and "single_sink predecessors"
    and "length duration = length predecessors" and "0 < length predecessors"
    and "successors = None \<or> successors = Some (successors_by_predecessors predecessors)"
    and "length predecessors \<le> limit"
  shows "\<exists>est lst. calculate_critical_times limit duration predecessors successors = Inr (est, lst)
           \<and> length est = length duration
           \<and> (\<forall>i<length duration.
                 est ! i = (if predecessors ! i = [] then 0
                            else Max ((\<lambda>p. est ! p + duration ! p) ` set (predecessors ! i))))"
  using critical_times_result[OF assms] unfolding rec_es_def es_max_def by blast

lemma example_single_sink: "single_sink [[], [0], [1], [0], [2, 3]]"
  by code_simp

theorem earliest_start_recurrence_witness:
  "calculate_critical_times 10 [1, 2, 5, 5, 0] [[], [0], [1], [0], [2, 3]] None
     = Inr ([0, 1, 3, 1, 8], [1, 3, 8, 8, 8])
   \<and> [0, 1, 3, 1, 8 :: int] ! 4
       = Max ((\<lambda>p. [0, 1, 3, 1, 8] ! p + [1, 2, 5, 5, 0] ! p) ` set ([[], [0], [1], [0], [2, 3]] ! 4))"
proof -
  have h4: "length [1, 2, 5, 5, 0 :: int] = length [[], [0], [1], [0], [2, 3 :: nat]]" by simp
  have h5: "0 < length [[], [0], [1], [0], [2, 3 :: nat]]" by simp
  have h6: "(None :: nat list list option) = None
              \<or> None = Some (successors_by_predecessors [[], [0], [1], [0], [2, 3]])" by simp
  have h7: "length [[], [0], [1], [0], [2, 3 :: nat]] \<le> 10" by simp
  note T = earliest_start_recurrence[OF example_preds_exist example_acyclic example_single_sink h4 h5 h6 h7]
  from T obtain est lst where
    c: "calculate_critical_times 10 [1, 2, 5, 5, 0] [[], [0], [1], [0], [2, 3]] None = Inr (est, lst)"
    and r: "\<forall>i<length [1, 2, 5, 5, 0 :: int].
               est ! i = (if [[], [0], [1], [0], [2, 3 :: nat]] ! i = [] then 0
                          else Max ((\<lambda>p. est ! p + [1, 2, 5, 5, 0] ! p) ` set ([[], [0], [1], [0], [2, 3]] ! i)))"
    by (elim exE conjE) (rule that; assumption)
  have ev: "calculate_critical_times 10 [1, 2, 5, 5, 0] [[], [0], [1], [0], [2, 3]] None
     = Inr ([0, 1, 3, 1, 8], [1, 3, 8, 8, 8])" by code_simp
  with c have e: "est = [0, 1, 3, 1, 8]" by simp
  from r[rule_format, of 4] have "est ! 4 = Max ((\<lambda>p. est ! p + [1, 2, 5, 5, 0] ! p) ` set ([[], [0], [1], [0], [2, 3]] ! 4))"
    by simp
  with ev show ?thesis unfolding e by blast
qed












end
